theory Spec2Isabelle
  imports Main "HOL-Library.Word"
begin

unbundle bit_operations_syntax

section \<open>Per-process statistics probes (stats.c and stats-v2.c)\<close>

text \<open>
  Both probes keep one table \<open>stats_map\<close> from a 32-bit process id to a record of three
  64-bit counters, and update it from tracepoint handlers. \<open>stats.c\<close> declares the table
  as \<open>BPF_MAP_TYPE_HASH\<close> and attaches one handler (\<open>count_context_switches\<close>);
  \<open>stats-v2.c\<close> declares it as \<open>BPF_MAP_TYPE_LRU_HASH\<close> and attaches the same handler
  plus \<open>count_page_faults\<close>. The functions \<open>get_or_init_stats\<close> and
  \<open>count_context_switches\<close> are textually the same in the two files, so one definition
  of each, taking the table as an argument, serves both.

  The model is sequential: one handler runs to completion before the next one starts.
\<close>

subsection \<open>Data\<close>

type_synonym u8 = "8 word"
type_synonym u16 = "16 word"
type_synonym u32 = "32 word"
type_synonym s32 = "32 word"
type_synonym u64 = "64 word"

text \<open>\<open>struct stats_t\<close>: three \<open>__u64\<close> counters; \<open>++\<close> on them wraps at \<open>2^64\<close>.\<close>

record stats_t =
  context_switches :: u64
  major_faults :: u64
  minor_faults :: u64

text \<open>The local \<open>zero = {}\<close> of \<open>get_or_init_stats\<close>.\<close>

definition zero_stats :: stats_t where
  "zero_stats = \<lparr>context_switches = 0, major_faults = 0, minor_faults = 0\<rparr>"

text \<open>
  \<open>struct trace_event_raw_sched_switch\<close> comes from \<open>vmlinux.h\<close>; the handler reads its
  \<open>prev_pid\<close> and \<open>next_pid\<close> fields only (\<open>pid_t\<close>, converted to \<open>__u32\<close> at the call,
  which keeps the 32 bits).
\<close>

record trace_event_raw_sched_switch =
  prev_pid :: s32
  next_pid :: s32

text \<open>\<open>struct trace_event_raw_page_fault_user\<close>, as declared in \<open>stats-v2.c\<close>.\<close>

record trace_event_raw_page_fault_user =
  common_type :: u16
  common_flags :: u8
  common_preempt_count :: u8
  common_pid :: s32
  address :: u64
  ip :: u64
  error_code :: u64

subsection \<open>The table\<close>

datatype bpf_map_type = BPF_MAP_TYPE_HASH | BPF_MAP_TYPE_LRU_HASH

text \<open>The only update flag the probes pass.\<close>

datatype update_flags = BPF_ANY

text \<open>
  The anonymous struct behind \<open>stats_map\<close>: its declared type and \<open>max_entries\<close>, and the
  live entries. The entries are kept as an association list with the most recently
  touched key first; the order matters to the LRU policy only.
\<close>

record bpf_map =
  map_type :: bpf_map_type
  max_entries :: nat
  entries :: "(u32 \<times> stats_t) list"

text \<open>\<open>stats_map\<close> of \<open>stats.c\<close> (lines 11-16), before any event.\<close>

definition stats_map :: bpf_map where
  "stats_map = \<lparr>map_type = BPF_MAP_TYPE_HASH, max_entries = 1024, entries = []\<rparr>"

text \<open>\<open>stats_map\<close> of \<open>stats-v2.c\<close> (lines 22-27), before any event.\<close>

definition stats_map_v2 :: bpf_map where
  "stats_map_v2 = \<lparr>map_type = BPF_MAP_TYPE_LRU_HASH, max_entries = 1024, entries = []\<rparr>"

text \<open>What a reader of the table (user space) sees under a key.\<close>

definition read_stats :: "bpf_map \<Rightarrow> u32 \<Rightarrow> stats_t option" where
  "read_stats m key = map_of (entries m) key"

definition keys :: "bpf_map \<Rightarrow> u32 list" where
  "keys m = map fst (entries m)"

text \<open>
  A pointer into the table's value storage is modelled by the key of the entry it points
  to, \<open>NULL\<close> by \<open>None\<close>. The handlers use such a pointer right after obtaining it, with
  no table operation in between.
\<close>

type_synonym stats_ptr = "u32 option"

text \<open>
  Modelled from the spec: \<open>bpf_map_lookup_elem\<close> is a kernel helper, not a function of this
  repository. The spec (sections 3 and 4.3) gives a lookup that finds the record of a
  present key and nothing for an absent one; under the LRU policy a lookup is a touch, so
  the key becomes the most recently touched one.
\<close>

definition bpf_map_lookup_elem :: "bpf_map \<Rightarrow> u32 \<Rightarrow> bpf_map \<times> stats_ptr" where
  "bpf_map_lookup_elem m key =
     (case map_of (entries m) key of
        None \<Rightarrow> (m, None)
      | Some v \<Rightarrow>
          (case map_type m of
             BPF_MAP_TYPE_HASH \<Rightarrow> (m, Some key)
           | BPF_MAP_TYPE_LRU_HASH \<Rightarrow>
               (m\<lparr>entries := (key, v) # filter (\<lambda>e. fst e \<noteq> key) (entries m)\<rparr>, Some key)))"

text \<open>The error code of a rejected insertion.\<close>

definition E2BIG :: int where
  "E2BIG = 7"

text \<open>
  Modelled from the spec: \<open>bpf_map_update_elem\<close> is a kernel helper, not a function of this
  repository. The spec (sections 3, 4.3 and 7) gives, for the flag \<open>BPF_ANY\<close>,
  insert-or-overwrite: a present key gets the new value; an absent key is inserted while
  fewer than \<open>max_entries\<close> entries are live; at capacity the unbounded policy rejects the
  insertion and leaves the table as it is, and the LRU policy evicts the least recently
  touched entry to make room. The second component is the helper's return code.
\<close>

definition bpf_map_update_elem ::
  "bpf_map \<Rightarrow> u32 \<Rightarrow> stats_t \<Rightarrow> update_flags \<Rightarrow> bpf_map \<times> int" where
  "bpf_map_update_elem m key v flags =
     (if map_of (entries m) key \<noteq> None then
        (case map_type m of
           BPF_MAP_TYPE_HASH \<Rightarrow>
             (m\<lparr>entries := map (\<lambda>e. if fst e = key then (key, v) else e) (entries m)\<rparr>, 0)
         | BPF_MAP_TYPE_LRU_HASH \<Rightarrow>
             (m\<lparr>entries := (key, v) # filter (\<lambda>e. fst e \<noteq> key) (entries m)\<rparr>, 0))
      else if length (entries m) < max_entries m then
        (m\<lparr>entries := (key, v) # entries m\<rparr>, 0)
      else
        (case map_type m of
           BPF_MAP_TYPE_HASH \<Rightarrow> (m, - E2BIG)
         | BPF_MAP_TYPE_LRU_HASH \<Rightarrow> (m\<lparr>entries := (key, v) # butlast (entries m)\<rparr>, 0)))"

text \<open>A write through a non-null pointer: \<open>p->field++\<close> is \<open>store m p f\<close> for the field's update \<open>f\<close>.\<close>

definition store :: "bpf_map \<Rightarrow> u32 \<Rightarrow> (stats_t \<Rightarrow> stats_t) \<Rightarrow> bpf_map" where
  "store m p f = m\<lparr>entries := map (\<lambda>e. if fst e = p then (fst e, f (snd e)) else e) (entries m)\<rparr>"

subsection \<open>The aggregator and the handlers\<close>

text \<open>
  \<open>get_or_init_stats\<close> (\<open>stats.c\<close> lines 18-30, \<open>stats-v2.c\<close> lines 29-42). The return code
  of the update is ignored, as in the source.
\<close>

definition get_or_init_stats :: "bpf_map \<Rightarrow> u32 \<Rightarrow> bpf_map \<times> stats_ptr" where
  "get_or_init_stats m pid =
     (let (m1, stats) = bpf_map_lookup_elem m pid in
      if stats = None then
        (let (m2, rc) = bpf_map_update_elem m1 pid zero_stats BPF_ANY;
             (m3, stats') = bpf_map_lookup_elem m2 pid
         in if stats' = None then (m3, None) else (m3, stats'))
      else (m1, stats))"

text \<open>
  The resolve-or-create algorithm in the words of the spec (section 4.3), for comparison
  with \<open>get_or_init_stats\<close>: (1) look the id up and, if found, return the record at once;
  (2) if not found, insert a zero record with insert-or-overwrite; (3) look the id up
  again and return the record, or "absent" if it is still not found.
\<close>

definition resolve_or_create :: "bpf_map \<Rightarrow> u32 \<Rightarrow> bpf_map \<times> stats_ptr" where
  "resolve_or_create m ident =
     (case bpf_map_lookup_elem m ident of
        (m1, Some found) \<Rightarrow> (m1, Some found)
      | (m1, None) \<Rightarrow>
          (case bpf_map_lookup_elem (fst (bpf_map_update_elem m1 ident zero_stats BPF_ANY)) ident of
             (m3, Some found) \<Rightarrow> (m3, Some found)
           | (m3, None) \<Rightarrow> (m3, None)))"

text \<open>
  \<open>count_context_switches\<close> (\<open>stats.c\<close> lines 32-51, \<open>stats-v2.c\<close> lines 44-63). A null
  \<open>ctx\<close> is \<open>None\<close>; the result is the table after the handler and the returned \<open>int\<close>.
\<close>

definition count_context_switches ::
  "bpf_map \<Rightarrow> trace_event_raw_sched_switch option \<Rightarrow> bpf_map \<times> int" where
  "count_context_switches m ctx =
     (case ctx of
        None \<Rightarrow> (m, 0)
      | Some c \<Rightarrow>
          (let (m1, prev_stats) = get_or_init_stats m (prev_pid c);
               m2 = (case prev_stats of
                       None \<Rightarrow> m1
                     | Some p \<Rightarrow> store m1 p (\<lambda>s. s\<lparr>context_switches := context_switches s + 1\<rparr>));
               (m3, next_stats) = get_or_init_stats m2 (next_pid c);
               m4 = (case next_stats of
                       None \<Rightarrow> m3
                     | Some p \<Rightarrow> store m3 p (\<lambda>s. s\<lparr>context_switches := context_switches s + 1\<rparr>))
           in (m4, 0)))"

text \<open>
  \<open>count_page_faults\<close> (\<open>stats-v2.c\<close> lines 66-88). \<open>pid_tgid\<close> is what the kernel helper
  \<open>bpf_get_current_pid_tgid()\<close> returns in the handler's execution context; the handler
  keeps its upper 32 bits.
\<close>

definition count_page_faults ::
  "bpf_map \<Rightarrow> trace_event_raw_page_fault_user option \<Rightarrow> u64 \<Rightarrow> bpf_map \<times> int" where
  "count_page_faults m ctx pid_tgid =
     (case ctx of
        None \<Rightarrow> (m, 0)
      | Some c \<Rightarrow>
          (let pid = (ucast (drop_bit 32 pid_tgid) :: u32);
               (m1, stats) = get_or_init_stats m pid
           in case stats of
                None \<Rightarrow> (m1, 0)
              | Some p \<Rightarrow>
                  if error_code c AND 1 \<noteq> 0 then
                    (store m1 p (\<lambda>s. s\<lparr>minor_faults := minor_faults s + 1\<rparr>), 0)
                  else
                    (store m1 p (\<lambda>s. s\<lparr>major_faults := major_faults s + 1\<rparr>), 0)))"

subsection \<open>Runs of the two programs\<close>

text \<open>\<open>stats.c\<close> attaches one handler, so a run is a list of scheduler events.\<close>

fun run_stats :: "bpf_map \<Rightarrow> trace_event_raw_sched_switch option list \<Rightarrow> bpf_map" where
  "run_stats m [] = m"
| "run_stats m (ctx # rest) = run_stats (fst (count_context_switches m ctx)) rest"

text \<open>\<open>stats-v2.c\<close> attaches two handlers.\<close>

datatype tracepoint =
  Sched_switch "trace_event_raw_sched_switch option"
| Page_fault_user "trace_event_raw_page_fault_user option" u64

fun handle :: "bpf_map \<Rightarrow> tracepoint \<Rightarrow> bpf_map \<times> int" where
  "handle m (Sched_switch ctx) = count_context_switches m ctx"
| "handle m (Page_fault_user ctx pid_tgid) = count_page_faults m ctx pid_tgid"

fun run_stats_v2 :: "bpf_map \<Rightarrow> tracepoint list \<Rightarrow> bpf_map" where
  "run_stats_v2 m [] = m"
| "run_stats_v2 m (ev # rest) = run_stats_v2 (fst (handle m ev)) rest"

text \<open>
  The invariant of the table: keys are unique, at most \<open>max_entries\<close> entries are live, and
  the capacity is positive.
\<close>

definition wf_map :: "bpf_map \<Rightarrow> bool" where
  "wf_map m \<longleftrightarrow> distinct (keys m) \<and> length (entries m) \<le> max_entries m \<and> 0 < max_entries m"

text \<open>
  When \<open>get_or_init_stats\<close> can return a record: the key is present, or the table has room,
  or the policy evicts.
\<close>

definition resolvable :: "bpf_map \<Rightarrow> u32 \<Rightarrow> bool" where
  "resolvable m pid \<longleftrightarrow>
     read_stats m pid \<noteq> None \<or> length (entries m) < max_entries m \<or>
     map_type m = BPF_MAP_TYPE_LRU_HASH"

text \<open>The least recently touched key of a non-empty table.\<close>

definition lru_key :: "bpf_map \<Rightarrow> u32" where
  "lru_key m = fst (last (entries m))"

text \<open>
  Whether resolving \<open>pid\<close> evicts an entry: only a new key, at capacity, under the LRU
  policy does.
\<close>

definition evicts :: "bpf_map \<Rightarrow> u32 \<Rightarrow> bool" where
  "evicts m pid \<longleftrightarrow>
     read_stats m pid = None \<and> \<not> length (entries m) < max_entries m \<and>
     map_type m = BPF_MAP_TYPE_LRU_HASH"

text \<open>The record a handler counts on: the one in the table, or a fresh zero one.\<close>

definition current :: "bpf_map \<Rightarrow> u32 \<Rightarrow> stats_t" where
  "current m pid = (case read_stats m pid of None \<Rightarrow> zero_stats | Some s \<Rightarrow> s)"

text \<open>
  The pattern the handlers repeat: resolve-or-create the record of \<open>pid\<close> and, when it is
  not null, write \<open>f\<close> of it through the pointer.
\<close>

definition with_stats :: "bpf_map \<Rightarrow> u32 \<Rightarrow> (stats_t \<Rightarrow> stats_t) \<Rightarrow> bpf_map" where
  "with_stats m pid f =
     (case get_or_init_stats m pid of
        (m1, None) \<Rightarrow> m1
      | (m1, Some p) \<Rightarrow> store m1 p f)"

text \<open>
  The one way a record can be in the table before and after an event without being the
  same record: a scheduler event whose outgoing id is new to a full LRU table evicts the
  least recently touched id, and that id is the incoming one, so its record is created
  anew by the same event.
\<close>

definition recreated_in :: "bpf_map \<Rightarrow> tracepoint \<Rightarrow> u32 \<Rightarrow> bool" where
  "recreated_in m ev q =
     (case ev of
        Sched_switch (Some c) \<Rightarrow> evicts m (prev_pid c) \<and> lru_key m = q \<and> next_pid c = q
      | _ \<Rightarrow> False)"

text \<open>No record of the table has counted a page fault.\<close>

definition no_faults :: "bpf_map \<Rightarrow> bool" where
  "no_faults m \<longleftrightarrow>
     (\<forall>e \<in> set (entries m). major_faults (snd e) = 0 \<and> minor_faults (snd e) = 0)"

subsection \<open>Concrete tables and events\<close>

text \<open>A scheduler event in which \<open>pid\<close> is switched out and in again.\<close>

definition self_switch :: "u32 \<Rightarrow> trace_event_raw_sched_switch" where
  "self_switch pid = \<lparr>prev_pid = pid, next_pid = pid\<rparr>"

text \<open>A page-fault event with the given error code; the handler reads no other field.\<close>

definition fault_event :: "u64 \<Rightarrow> trace_event_raw_page_fault_user" where
  "fault_event ec =
     \<lparr>common_type = 0, common_flags = 0, common_preempt_count = 0, common_pid = 0,
      address = 0, ip = 0, error_code = ec\<rparr>"

text \<open>The 1024 self-switch events that fill the empty table.\<close>

definition warm_up :: "trace_event_raw_sched_switch option list" where
  "warm_up = map (\<lambda>i. Some (self_switch (word_of_nat i))) [0..<1024]"

text \<open>
  A table at capacity: the ids 0 to 1023, each counted for one self-switch, id 1023 touched
  last and id 0 least recently. It is the table that 1024 self-switch events, for the ids
  0, 1, ..., 1023 in this order, leave behind when they start from the empty table.
\<close>

definition full_entries :: "(u32 \<times> stats_t) list" where
  "full_entries =
     map (\<lambda>i. (word_of_nat i, zero_stats\<lparr>context_switches := 2\<rparr>)) (rev [0..<1024])"

definition full_table :: "bpf_map_type \<Rightarrow> bpf_map" where
  "full_table ty = \<lparr>map_type = ty, max_entries = 1024, entries = full_entries\<rparr>"

section \<open>Facts about the table and the aggregator\<close>

subsection \<open>Association lists\<close>

lemma map_of_filter_key:
  "map_of (filter (\<lambda>e. fst e \<noteq> k) xs) q = (if q = k then None else map_of xs q)"
  by (induction xs) auto

lemma filter_key_absent:
  "map_of xs k = None \<Longrightarrow> filter (\<lambda>e. fst e \<noteq> k) xs = xs"
  by (induction xs) (auto split: if_splits)

lemma map_of_butlast:
  "distinct (map fst xs) \<Longrightarrow> xs \<noteq> [] \<Longrightarrow>
   map_of (butlast xs) q = (if q = fst (last xs) then None else map_of xs q)"
proof (induction xs)
  case Nil
  then show ?case by simp
next
  case (Cons e xs)
  show ?case
  proof (cases "xs = []")
    case True
    then show ?thesis by (cases e) auto
  next
    case False
    with Cons have IH: "map_of (butlast xs) q = (if q = fst (last xs) then None else map_of xs q)"
      by simp
    from False have "last xs \<in> set xs" by simp
    then have "fst (last xs) \<in> fst ` set xs" by (rule imageI)
    moreover from Cons.prems have "fst e \<notin> fst ` set xs" by simp
    ultimately have "fst e \<noteq> fst (last xs)" by metis
    with False IH show ?thesis by (cases e) auto
  qed
qed

lemma map_of_store_list:
  "map_of (map (\<lambda>e. if fst e = p then (fst e, f (snd e)) else e) xs) q =
   (if q = p then map_option f (map_of xs q) else map_of xs q)"
  by (induction xs) auto

lemma keys_store_list:
  "map fst (map (\<lambda>e. if fst e = p then (fst e, f (snd e)) else e) xs) = map fst xs"
  by (induction xs) auto

lemma map_of_butlast_None: "map_of xs k = None \<Longrightarrow> map_of (butlast xs) k = None"
  by (auto simp: map_of_eq_None_iff dest: in_set_butlastD)

subsection \<open>Resolve-or-create, case by case\<close>

lemma goi_present_hash:
  "read_stats m pid = Some v \<Longrightarrow> map_type m = BPF_MAP_TYPE_HASH \<Longrightarrow>
   get_or_init_stats m pid = (m, Some pid)"
  by (simp add: get_or_init_stats_def bpf_map_lookup_elem_def read_stats_def)

lemma goi_present_lru:
  "read_stats m pid = Some v \<Longrightarrow> map_type m = BPF_MAP_TYPE_LRU_HASH \<Longrightarrow>
   get_or_init_stats m pid =
     (m\<lparr>entries := (pid, v) # filter (\<lambda>e. fst e \<noteq> pid) (entries m)\<rparr>, Some pid)"
  by (simp add: get_or_init_stats_def bpf_map_lookup_elem_def read_stats_def)

lemma goi_room:
  "read_stats m pid = None \<Longrightarrow> length (entries m) < max_entries m \<Longrightarrow>
   get_or_init_stats m pid = (m\<lparr>entries := (pid, zero_stats) # entries m\<rparr>, Some pid)"
  by (cases "map_type m")
     (simp_all add: get_or_init_stats_def bpf_map_lookup_elem_def bpf_map_update_elem_def
        read_stats_def filter_key_absent)

lemma goi_full_hash:
  "read_stats m pid = None \<Longrightarrow> \<not> length (entries m) < max_entries m \<Longrightarrow>
   map_type m = BPF_MAP_TYPE_HASH \<Longrightarrow> get_or_init_stats m pid = (m, None)"
  by (simp add: get_or_init_stats_def bpf_map_lookup_elem_def bpf_map_update_elem_def
        read_stats_def)

lemma goi_full_lru:
  "read_stats m pid = None \<Longrightarrow> \<not> length (entries m) < max_entries m \<Longrightarrow>
   map_type m = BPF_MAP_TYPE_LRU_HASH \<Longrightarrow>
   get_or_init_stats m pid = (m\<lparr>entries := (pid, zero_stats) # butlast (entries m)\<rparr>, Some pid)"
  by (simp add: get_or_init_stats_def bpf_map_lookup_elem_def bpf_map_update_elem_def
        read_stats_def filter_key_absent map_of_butlast_None)

lemma keys_filter: "map fst (filter (\<lambda>e. fst e \<noteq> k) xs) = filter (\<lambda>x. x \<noteq> k) (map fst xs)"
  by (induction xs) auto

lemma read_store [simp]:
  "read_stats (store m p f) q = (if q = p then map_option f (read_stats m q) else read_stats m q)"
  by (simp add: read_stats_def store_def map_of_store_list)

lemma keys_store [simp]: "keys (store m p f) = keys m"
  by (simp add: keys_def store_def keys_store_list)

lemma fields_store [simp]:
  "map_type (store m p f) = map_type m" "max_entries (store m p f) = max_entries m"
  "length (entries (store m p f)) = length (entries m)"
  by (simp_all add: store_def)

lemma wf_store [simp]: "wf_map (store m p f) = wf_map m"
  by (simp add: wf_map_def)

lemma read_None_keys: "read_stats m k = None \<longleftrightarrow> k \<notin> set (keys m)"
  by (simp add: read_stats_def keys_def map_of_eq_None_iff)

text \<open>The five cases of resolve-or-create, as one case analysis.\<close>

lemma goi_cases:
  obtains (present_hash) v where "read_stats m pid = Some v" "map_type m = BPF_MAP_TYPE_HASH"
      "get_or_init_stats m pid = (m, Some pid)"
  | (present_lru) v where "read_stats m pid = Some v" "map_type m = BPF_MAP_TYPE_LRU_HASH"
      "get_or_init_stats m pid =
         (m\<lparr>entries := (pid, v) # filter (\<lambda>e. fst e \<noteq> pid) (entries m)\<rparr>, Some pid)"
  | (room) "read_stats m pid = None" "length (entries m) < max_entries m"
      "get_or_init_stats m pid = (m\<lparr>entries := (pid, zero_stats) # entries m\<rparr>, Some pid)"
  | (full_hash) "read_stats m pid = None" "\<not> length (entries m) < max_entries m"
      "map_type m = BPF_MAP_TYPE_HASH" "get_or_init_stats m pid = (m, None)"
  | (full_lru) "read_stats m pid = None" "\<not> length (entries m) < max_entries m"
      "map_type m = BPF_MAP_TYPE_LRU_HASH"
      "get_or_init_stats m pid = (m\<lparr>entries := (pid, zero_stats) # butlast (entries m)\<rparr>, Some pid)"
proof (cases "read_stats m pid")
  case None
  show ?thesis
  proof (cases "length (entries m) < max_entries m")
    case True
    with None show ?thesis using room goi_room by blast
  next
    case False
    with None show ?thesis
      using full_hash full_lru goi_full_hash goi_full_lru by (cases "map_type m") blast+
  qed
next
  case (Some v)
  then show ?thesis
    using present_hash present_lru goi_present_hash goi_present_lru by (cases "map_type m") blast+
qed

lemma goi_fields:
  "map_type (fst (get_or_init_stats m pid)) = map_type m"
  "max_entries (fst (get_or_init_stats m pid)) = max_entries m"
  by (cases m pid rule: goi_cases; simp)+

lemma goi_result:
  "snd (get_or_init_stats m pid) = (if resolvable m pid then Some pid else None)"
  by (cases m pid rule: goi_cases) (simp_all add: resolvable_def)

lemma goi_wf:
  assumes "wf_map m" shows "wf_map (fst (get_or_init_stats m pid))"
proof (cases m pid rule: goi_cases)
  case (present_lru v)
  then have "(pid, v) \<in> set (entries m)"
    by (simp add: read_stats_def map_of_SomeD)
  then have "length (filter (\<lambda>e. fst e \<noteq> pid) (entries m)) < length (entries m)"
    by (intro length_filter_less[where x = "(pid, v)"]) auto
  with assms present_lru show ?thesis
    by (simp add: wf_map_def keys_def keys_filter)
next
  case room
  with assms show ?thesis by (simp add: wf_map_def read_None_keys keys_def)
next
  case full_lru
  with assms have ne: "entries m \<noteq> []" by (auto simp: wf_map_def)
  from full_lru have "pid \<notin> set (map fst (butlast (entries m)))"
    by (auto simp: read_None_keys keys_def dest: in_set_butlastD)
  with assms full_lru ne show ?thesis
    by (simp add: wf_map_def keys_def map_butlast distinct_butlast)
qed (use assms in simp_all)

lemma goi_read:
  assumes "wf_map m"
  shows "read_stats (fst (get_or_init_stats m pid)) q =
           (if q = pid then (if resolvable m pid then Some (current m pid) else None)
            else if evicts m pid \<and> q = lru_key m then None
            else read_stats m q)"
proof (cases m pid rule: goi_cases)
  case (present_hash v)
  then show ?thesis by (simp add: resolvable_def evicts_def current_def)
next
  case (present_lru v)
  then show ?thesis
    by (simp add: resolvable_def evicts_def current_def read_stats_def map_of_filter_key)
next
  case room
  then show ?thesis by (simp add: resolvable_def evicts_def current_def read_stats_def)
next
  case full_hash
  then show ?thesis by (auto simp add: resolvable_def evicts_def current_def)
next
  case full_lru
  with assms have ne: "entries m \<noteq> []" and d: "distinct (map fst (entries m))"
    by (auto simp: wf_map_def keys_def)
  from full_lru ne d show ?thesis
    by (simp add: resolvable_def evicts_def current_def read_stats_def map_of_butlast lru_key_def)
qed

subsection \<open>One resolve followed by one write\<close>

lemma ws_goi:
  "with_stats m pid f =
     (if resolvable m pid then store (fst (get_or_init_stats m pid)) pid f
      else fst (get_or_init_stats m pid))"
  using goi_result[of m pid]
  by (cases "get_or_init_stats m pid") (auto simp: with_stats_def split: option.splits if_splits)

lemma ws_unresolvable: "\<not> resolvable m pid \<Longrightarrow> with_stats m pid f = m"
  by (cases m pid rule: goi_cases) (simp_all add: ws_goi resolvable_def)

lemma ws_fields [simp]:
  "map_type (with_stats m pid f) = map_type m"
  "max_entries (with_stats m pid f) = max_entries m"
  by (simp_all add: ws_goi goi_fields)

lemma ws_wf: "wf_map m \<Longrightarrow> wf_map (with_stats m pid f)"
  by (simp add: ws_goi goi_wf)

lemma ws_read:
  assumes "wf_map m"
  shows "read_stats (with_stats m pid f) q =
           (if q = pid then (if resolvable m pid then Some (f (current m pid)) else None)
            else if evicts m pid \<and> q = lru_key m then None
            else read_stats m q)"
  by (simp add: ws_goi goi_read[OF assms])

lemma ws_front:
  assumes "map_type m = BPF_MAP_TYPE_LRU_HASH"
  shows "\<exists>rest. keys (with_stats m pid f) = pid # rest"
proof -
  from assms have "resolvable m pid" by (simp add: resolvable_def)
  then have "keys (with_stats m pid f) = keys (fst (get_or_init_stats m pid))"
    by (simp add: ws_goi)
  with assms show ?thesis
    by (cases m pid rule: goi_cases) (simp_all add: keys_def)
qed

lemma ws_lru_key:
  assumes "wf_map m" "map_type m = BPF_MAP_TYPE_LRU_HASH"
    and "2 \<le> length (entries (with_stats m pid f))"
  shows "lru_key (with_stats m pid f) \<noteq> pid"
proof -
  let ?m = "with_stats m pid f"
  from ws_front[OF assms(2)] obtain rest where k: "keys ?m = pid # rest" by blast
  from assms(3) have "2 \<le> length (keys ?m)" by (simp add: keys_def)
  with k have ne: "rest \<noteq> []" by auto
  from assms(3) have "entries ?m \<noteq> []" by auto
  then have "lru_key ?m = last (keys ?m)"
    by (simp add: lru_key_def keys_def last_map)
  with k ne have "lru_key ?m \<in> set rest" by simp
  moreover from ws_wf[OF assms(1), of pid f] have "distinct (keys ?m)"
    by (simp add: wf_map_def)
  with k have "pid \<notin> set rest" by simp
  ultimately show ?thesis by metis
qed

lemma ccs_halves:
  "count_context_switches m (Some c) =
     (with_stats (with_stats m (prev_pid c) (\<lambda>s. s\<lparr>context_switches := context_switches s + 1\<rparr>))
        (next_pid c) (\<lambda>s. s\<lparr>context_switches := context_switches s + 1\<rparr>), 0)"
  by (simp add: count_context_switches_def with_stats_def split: prod.splits option.splits)

lemma cpf_with:
  "count_page_faults m (Some c) pid_tgid =
     (with_stats m (ucast (drop_bit 32 pid_tgid))
        (if error_code c AND 1 \<noteq> 0 then (\<lambda>s. s\<lparr>minor_faults := minor_faults s + 1\<rparr>)
         else (\<lambda>s. s\<lparr>major_faults := major_faults s + 1\<rparr>)), 0)"
  by (simp add: count_page_faults_def with_stats_def split: prod.splits option.splits)

subsection \<open>The table at capacity\<close>

lemma word_of_nat_inj32:
  "i < 1024 \<Longrightarrow> j < 1024 \<Longrightarrow> (word_of_nat i :: u32) = word_of_nat j \<Longrightarrow> i = j"
proof -
  assume a: "i < 1024" "j < 1024" and e: "(word_of_nat i :: u32) = word_of_nat j"
  from e have "unat (word_of_nat i :: u32) = unat (word_of_nat j :: u32)" by simp
  with a show "i = j" by (simp add: unat_of_nat)
qed

lemma full_keys: "keys (full_table ty) = map word_of_nat (rev [0..<1024])"
  by (simp add: keys_def full_table_def full_entries_def comp_def del: upt_rec_numeral)

lemma full_fields [simp]:
  "map_type (full_table ty) = ty" "max_entries (full_table ty) = 1024"
  "length (entries (full_table ty)) = 1024"
  by (simp_all add: full_table_def full_entries_def)

lemma full_distinct: "distinct (keys (full_table ty))"
  unfolding full_keys
  by (rule iffD2[OF distinct_map]) (auto simp: inj_on_def dest: word_of_nat_inj32)

lemma full_wf: "wf_map (full_table ty)"
  by (simp add: wf_map_def full_distinct)

lemma full_read_None: "1024 \<le> unat k \<Longrightarrow> read_stats (full_table ty) k = None"
proof -
  assume a: "1024 \<le> unat k"
  have "k \<notin> set (keys (full_table ty))"
  proof
    assume "k \<in> set (keys (full_table ty))"
    then obtain i where "i < 1024" "k = word_of_nat i" by (auto simp: full_keys)
    then have "unat k = i" by (simp add: unat_of_nat)
    with a \<open>i < 1024\<close> show False by simp
  qed
  then show ?thesis by (simp add: read_None_keys)
qed

lemma full_read_Some:
  "unat k < 1024 \<Longrightarrow> read_stats (full_table ty) k = Some (zero_stats\<lparr>context_switches := 2\<rparr>)"
proof -
  assume a: "unat k < 1024"
  have "(k, zero_stats\<lparr>context_switches := 2\<rparr>) \<in> set (entries (full_table ty))"
    using a by (auto simp: full_table_def full_entries_def image_iff intro!: bexI[where x = "unat k"])
  moreover have "distinct (map fst (entries (full_table ty)))"
    using full_distinct[of ty] by (simp add: keys_def)
  ultimately show ?thesis
    unfolding read_stats_def by (rule map_of_is_SomeI[rotated])
qed

lemma full_lru_key: "lru_key (full_table ty) = 0"
proof -
  have "rev [0..<1024] \<noteq> []" by simp
  then have "last (map (\<lambda>i. (word_of_nat i :: u32, zero_stats\<lparr>context_switches := 2\<rparr>)) (rev [0..<1024]))
      = (\<lambda>i. (word_of_nat i, zero_stats\<lparr>context_switches := 2\<rparr>)) (last (rev [0..<1024]))"
    by (rule last_map)
  also have "last (rev [0..<1024]) = (0::nat)"
    by (simp add: last_rev hd_upt del: upt_rec_numeral)
  finally show ?thesis by (simp add: lru_key_def full_table_def full_entries_def)
qed

subsection \<open>Filling the empty table\<close>

lemma store_list_absent:
  "map_of xs p = None \<Longrightarrow> map (\<lambda>e. if fst e = p then (fst e, f (snd e)) else e) xs = xs"
  by (induction xs) (auto split: if_splits)

lemma store_front:
  "map_of xs p = None \<Longrightarrow>
   store (m\<lparr>entries := (p, v) # xs\<rparr>) p f = m\<lparr>entries := (p, f v) # xs\<rparr>"
  by (simp add: store_def store_list_absent)

lemma run_stats_append: "run_stats m (xs @ ys) = run_stats (run_stats m xs) ys"
  by (induction xs arbitrary: m) simp_all

lemma run_stats_v2_switches: "run_stats_v2 m (map Sched_switch evs) = run_stats m evs"
  by (induction evs arbitrary: m) simp_all

lemma self_switch_new:
  assumes "read_stats m pid = None" "length (entries m) < max_entries m"
  shows "fst (count_context_switches m (Some (self_switch pid))) =
           m\<lparr>entries := (pid, zero_stats\<lparr>context_switches := 2\<rparr>) # entries m\<rparr>"
proof -
  let ?f = "\<lambda>s::stats_t. s\<lparr>context_switches := context_switches s + 1\<rparr>"
  let ?m1 = "m\<lparr>entries := (pid, ?f zero_stats) # entries m\<rparr>"
  from assms have "with_stats m pid ?f = store (m\<lparr>entries := (pid, zero_stats) # entries m\<rparr>) pid ?f"
    by (simp add: with_stats_def goi_room)
  also from assms(1) have "\<dots> = ?m1"
    by (simp add: read_stats_def store_front)
  finally have h1: "with_stats m pid ?f = ?m1" .
  have rd: "read_stats ?m1 pid = Some (?f zero_stats)" by (simp add: read_stats_def)
  have "get_or_init_stats ?m1 pid = (?m1, Some pid)"
  proof (cases "map_type m")
    case BPF_MAP_TYPE_HASH
    with rd show ?thesis by (simp add: goi_present_hash)
  next
    case BPF_MAP_TYPE_LRU_HASH
    with rd assms(1) show ?thesis
      by (simp add: goi_present_lru[where v = "?f zero_stats"] read_stats_def filter_key_absent)
  qed
  then have "with_stats ?m1 pid ?f = store ?m1 pid ?f" by (simp add: with_stats_def)
  also from assms(1) have "\<dots> = m\<lparr>entries := (pid, ?f (?f zero_stats)) # entries m\<rparr>"
    using store_front[where xs = "entries m" and p = pid and m = m and v = "?f zero_stats" and f = ?f]
    by (simp add: read_stats_def)
  finally have "with_stats ?m1 pid ?f = m\<lparr>entries := (pid, ?f (?f zero_stats)) # entries m\<rparr>" .
  with h1 show ?thesis by (simp add: ccs_halves self_switch_def zero_stats_def)
qed

lemma run_self_switches:
  "n \<le> 1024 \<Longrightarrow>
   run_stats \<lparr>map_type = ty, max_entries = 1024, entries = []\<rparr>
     (map (\<lambda>i. Some (self_switch (word_of_nat i))) [0..<n]) =
   \<lparr>map_type = ty, max_entries = 1024,
    entries = map (\<lambda>i. (word_of_nat i, zero_stats\<lparr>context_switches := 2\<rparr>)) (rev [0..<n])\<rparr>"
proof (induction n)
  case 0
  then show ?case by simp
next
  case (Suc n)
  let ?g = "\<lambda>i. (word_of_nat i :: u32, zero_stats\<lparr>context_switches := 2\<rparr>)"
  let ?m = "\<lparr>map_type = ty, max_entries = 1024, entries = map ?g (rev [0..<n])\<rparr>"
  have "word_of_nat n \<notin> set (keys ?m)"
  proof
    assume "word_of_nat n \<in> set (keys ?m)"
    then obtain i where "i < n" "(word_of_nat n :: u32) = word_of_nat i"
      by (auto simp: keys_def)
    with Suc.prems have "n = i" by (intro word_of_nat_inj32) simp_all
    with \<open>i < n\<close> show False by simp
  qed
  then have absent: "read_stats ?m (word_of_nat n) = None" by (simp add: read_None_keys)
  from Suc.prems have room: "length (entries ?m) < max_entries ?m" by simp
  from Suc have "run_stats \<lparr>map_type = ty, max_entries = 1024, entries = []\<rparr>
      (map (\<lambda>i. Some (self_switch (word_of_nat i))) [0..<Suc n]) =
      fst (count_context_switches ?m (Some (self_switch (word_of_nat n))))"
    by (simp add: run_stats_append)
  also have "\<dots> = ?m\<lparr>entries := ?g n # entries ?m\<rparr>"
    using self_switch_new[OF absent room] by simp
  finally show ?case by simp
qed

lemma full_table_reached:
  "run_stats stats_map (map (\<lambda>i. Some (self_switch (word_of_nat i))) [0..<1024]) =
     full_table BPF_MAP_TYPE_HASH"
  "run_stats_v2 stats_map_v2 (map (\<lambda>i. Sched_switch (Some (self_switch (word_of_nat i)))) [0..<1024]) =
     full_table BPF_MAP_TYPE_LRU_HASH"
  using run_self_switches[of 1024 BPF_MAP_TYPE_HASH] run_self_switches[of 1024 BPF_MAP_TYPE_LRU_HASH]
    run_stats_v2_switches[of stats_map_v2 "map (\<lambda>i. Some (self_switch (word_of_nat i))) [0..<1024]"]
  by (simp_all add: stats_map_def stats_map_v2_def full_table_def full_entries_def comp_def
        del: upt_rec_numeral)

subsection \<open>Bit 0 of the error code\<close>

lemma and_1_bit0: "(x AND 1 \<noteq> 0) = bit (x::u64) 0"
  by (simp add: and_one_eq bit_0 mod_2_eq_odd)

subsection \<open>Resolving at capacity and at the front\<close>

lemma ws_full_hash:
  assumes "map_type m = BPF_MAP_TYPE_HASH" "\<not> length (entries m) < max_entries m"
  shows "with_stats m q f = (if read_stats m q = None then m else store m q f)"
proof (cases "read_stats m q")
  case None
  with assms have "\<not> resolvable m q" by (simp add: resolvable_def)
  with None show ?thesis by (simp add: ws_unresolvable)
next
  case (Some v)
  with assms(1) show ?thesis by (simp add: with_stats_def goi_present_hash)
qed

lemma goi_front:
  assumes "map_of xs pid = None"
  shows "get_or_init_stats (m\<lparr>entries := (pid, v) # xs\<rparr>) pid = (m\<lparr>entries := (pid, v) # xs\<rparr>, Some pid)"
proof (cases "map_type m")
  case BPF_MAP_TYPE_HASH
  then show ?thesis by (simp add: goi_present_hash[where v = v] read_stats_def)
next
  case BPF_MAP_TYPE_LRU_HASH
  with assms show ?thesis
    by (simp add: goi_present_lru[where v = v] read_stats_def filter_key_absent)
qed

subsection \<open>The two helpers on a present or absent key\<close>

lemma lookup_absent: "read_stats m pid = None \<Longrightarrow> bpf_map_lookup_elem m pid = (m, None)"
  by (simp add: bpf_map_lookup_elem_def read_stats_def)

lemma lookup_result:
  "snd (bpf_map_lookup_elem m pid) = (if read_stats m pid = None then None else Some pid)"
  by (auto simp: bpf_map_lookup_elem_def read_stats_def split: option.splits bpf_map_type.splits)

lemma map_of_overwrite:
  "map_of (map (\<lambda>e. if fst e = k then (k, v) else e) xs) q =
   (if q = k then map_option (\<lambda>_. v) (map_of xs q) else map_of xs q)"
  by (induction xs) auto

lemma update_present:
  "read_stats m pid \<noteq> None \<Longrightarrow>
   read_stats (fst (bpf_map_update_elem m pid v flags)) pid = Some v"
  by (cases "map_type m")
     (auto simp add: bpf_map_update_elem_def read_stats_def map_of_overwrite)

subsection \<open>The record after a resolve\<close>


text \<open>After a successful resolve the record is at hand: present under HASH, at the front otherwise.\<close>

lemma goi_at_front:
  assumes "entries m = (pid, v) # xs" "map_of xs pid = None"
  shows "get_or_init_stats m pid = (m, Some pid)"
proof -
  from assms(1) have "m\<lparr>entries := (pid, v) # xs\<rparr> = m" by (cases m) simp
  with goi_front[OF assms(2), where m = m and v = v] show ?thesis by simp
qed



subsection \<open>Counters, events and runs\<close>

lemma u64_le_add1:
  assumes "(x::u64) \<le> 0xFFFFFFFFFFFFFFFE" shows "x \<le> x + 1"
proof -
  from assms have "unat x \<le> 18446744073709551614" by (simp add: word_le_nat_alt)
  then have "unat (x + 1) = unat x + 1" by (simp add: unat_word_ariths)
  then show ?thesis by (simp add: word_le_nat_alt)
qed

lemma u64_le_add1_below:
  assumes "(x::u64) \<le> 0xFFFFFFFFFFFFFFFD" shows "x \<le> x + 1"
proof -
  from assms have "unat x \<le> 18446744073709551613" by (simp add: word_le_nat_alt)
  then have "unat (x + 1) = unat x + 1" by (simp add: unat_word_ariths)
  then show ?thesis by (simp add: word_le_nat_alt)
qed

lemma u64_le_add2:
  assumes "(x::u64) \<le> 0xFFFFFFFFFFFFFFFD" shows "x \<le> x + 2"
proof -
  from assms have "unat x \<le> 18446744073709551613" by (simp add: word_le_nat_alt)
  then have "unat (x + 2) = unat x + 2" by (simp add: unat_word_ariths)
  then show ?thesis by (simp add: word_le_nat_alt)
qed

lemma ws_keep:
  assumes "wf_map m" "read_stats m q = Some s" "read_stats (with_stats m pid f) q = Some s'"
  shows "s' = (if q = pid then f s else s)"
  using assms(2,3) by (auto simp: ws_read[OF assms(1)] resolvable_def current_def split: if_splits)

lemma handle_wf: "wf_map m \<Longrightarrow> wf_map (fst (handle m ev))"
proof (cases ev)
  case (Sched_switch ctx)
  assume "wf_map m"
  with Sched_switch show ?thesis
    by (cases ctx) (simp_all add: count_context_switches_def[where ctx = None] ccs_halves ws_wf)
next
  case (Page_fault_user ctx pid_tgid)
  assume "wf_map m"
  with Page_fault_user show ?thesis
    by (cases ctx) (simp_all add: count_page_faults_def[where ctx = None] cpf_with ws_wf)
qed

lemma handle_fields:
  "max_entries (fst (handle m ev)) = max_entries m" "map_type (fst (handle m ev)) = map_type m"
proof -
  show "max_entries (fst (handle m ev)) = max_entries m"
  proof (cases ev)
    case (Sched_switch ctx)
    then show ?thesis
      by (cases ctx) (simp_all add: count_context_switches_def[where ctx = None] ccs_halves)
  next
    case (Page_fault_user ctx pid_tgid)
    then show ?thesis
      by (cases ctx) (simp_all add: count_page_faults_def[where ctx = None] cpf_with)
  qed
  show "map_type (fst (handle m ev)) = map_type m"
  proof (cases ev)
    case (Sched_switch ctx)
    then show ?thesis
      by (cases ctx) (simp_all add: count_context_switches_def[where ctx = None] ccs_halves)
  next
    case (Page_fault_user ctx pid_tgid)
    then show ?thesis
      by (cases ctx) (simp_all add: count_page_faults_def[where ctx = None] cpf_with)
  qed
qed

lemma store_at_front_eq:
  assumes "entries m = (p, v) # xs" "map_of xs p = None"
  shows "store m p f = m\<lparr>entries := (p, f v) # xs\<rparr>"
  using assms by (simp add: store_def store_list_absent)

lemma self_switch_front:
  assumes e: "entries m = (p, s) # xs" and n: "map_of xs p = None"
  shows "fst (count_context_switches m (Some (self_switch p))) =
           m\<lparr>entries := (p, s\<lparr>context_switches := context_switches s + 2\<rparr>) # xs\<rparr>"
proof -
  let ?f = "\<lambda>s::stats_t. s\<lparr>context_switches := context_switches s + 1\<rparr>"
  let ?m1 = "m\<lparr>entries := (p, ?f s) # xs\<rparr>"
  have "with_stats m p ?f = store m p ?f"
    by (simp add: with_stats_def goi_at_front[OF e n])
  also have "\<dots> = ?m1" by (rule store_at_front_eq[OF e n])
  finally have h1: "with_stats m p ?f = ?m1" .
  have e1: "entries ?m1 = (p, ?f s) # xs" by simp
  have "with_stats ?m1 p ?f = store ?m1 p ?f"
    by (simp add: with_stats_def goi_at_front[OF e1 n])
  also have "\<dots> = ?m1\<lparr>entries := (p, ?f (?f s)) # xs\<rparr>"
    by (rule store_at_front_eq[OF e1 n])
  finally have "with_stats ?m1 p ?f = m\<lparr>entries := (p, ?f (?f s)) # xs\<rparr>" by simp
  with h1 show ?thesis by (simp add: ccs_halves self_switch_def)
qed

lemma run_self_switch_front:
  "entries m = [(p, s)] \<Longrightarrow>
   run_stats m (replicate n (Some (self_switch p))) =
     m\<lparr>entries := [(p, s\<lparr>context_switches := context_switches s + 2 * word_of_nat n\<rparr>)]\<rparr>"
proof (induction n arbitrary: m s)
  case 0
  then show ?case by (cases m) simp
next
  case (Suc n)
  let ?s2 = "s\<lparr>context_switches := context_switches s + 2\<rparr>"
  let ?m2 = "m\<lparr>entries := [(p, ?s2)]\<rparr>"
  from Suc.prems have step: "fst (count_context_switches m (Some (self_switch p))) = ?m2"
    by (intro self_switch_front) simp_all
  have "entries ?m2 = [(p, ?s2)]" by simp
  from Suc.IH[OF this] step show ?case by (simp add: algebra_simps)
qed

lemma run_self_from_empty:
  assumes "0 < n"
  shows "run_stats stats_map (replicate n (Some (self_switch p))) =
     stats_map\<lparr>entries := [(p, zero_stats\<lparr>context_switches := 2 * word_of_nat n\<rparr>)]\<rparr>"
proof -
  from assms obtain k where n: "n = Suc k" by (cases n) simp_all
  have "read_stats stats_map p = None" "length (entries stats_map) < max_entries stats_map"
    by (simp_all add: read_stats_def stats_map_def)
  then have first: "fst (count_context_switches stats_map (Some (self_switch p))) =
      stats_map\<lparr>entries := [(p, zero_stats\<lparr>context_switches := 2\<rparr>)]\<rparr>"
    by (simp add: self_switch_new stats_map_def)
  have "entries (stats_map\<lparr>entries := [(p, zero_stats\<lparr>context_switches := 2\<rparr>)]\<rparr>) =
      [(p, zero_stats\<lparr>context_switches := 2\<rparr>)]" by simp
  from run_self_switch_front[OF this, of k] first show ?thesis
    by (simp add: n algebra_simps)
qed

subsection \<open>Invariants of a run\<close>

lemma run_stats_inv:
  "wf_map m \<Longrightarrow>
   wf_map (run_stats m evs) \<and> max_entries (run_stats m evs) = max_entries m \<and>
   map_type (run_stats m evs) = map_type m"
proof (induction evs arbitrary: m)
  case Nil
  then show ?case by simp
next
  case (Cons ev evs)
  let ?m1 = "fst (count_context_switches m ev)"
  from Cons.prems handle_wf[of m "Sched_switch ev"] have "wf_map ?m1" by simp
  from Cons.IH[OF this] handle_fields[of m "Sched_switch ev"] show ?case by simp
qed

lemma run_stats_v2_inv:
  "wf_map m \<Longrightarrow>
   wf_map (run_stats_v2 m evs) \<and> max_entries (run_stats_v2 m evs) = max_entries m \<and>
   map_type (run_stats_v2 m evs) = map_type m"
proof (induction evs arbitrary: m)
  case Nil
  then show ?case by simp
next
  case (Cons ev evs)
  from Cons.prems have "wf_map (fst (handle m ev))" by (rule handle_wf)
  from Cons.IH[OF this] handle_fields[of m ev] show ?case by simp
qed

lemma wf_stats_map: "wf_map stats_map" "wf_map stats_map_v2"
  by (simp_all add: wf_map_def keys_def stats_map_def stats_map_v2_def)

lemma ws_no_faults:
  assumes wf: "wf_map m" and nf: "no_faults m"
    and f: "\<And>s. major_faults (f s) = major_faults s \<and> minor_faults (f s) = minor_faults s"
  shows "no_faults (with_stats m pid f)"
  unfolding no_faults_def
proof
  fix e assume e: "e \<in> set (entries (with_stats m pid f))"
  have old: "major_faults s = 0 \<and> minor_faults s = 0" if "read_stats m q = Some s" for q s
  proof -
    from that have "(q, s) \<in> set (entries m)" by (simp add: read_stats_def map_of_SomeD)
    with nf show ?thesis by (auto simp: no_faults_def)
  qed
  have cur: "major_faults (current m pid) = 0 \<and> minor_faults (current m pid) = 0"
    using old[of pid] by (cases "read_stats m pid") (simp_all add: current_def zero_stats_def)
  from ws_wf[OF wf, of pid f] have "distinct (map fst (entries (with_stats m pid f)))"
    by (simp add: wf_map_def keys_def)
  with e have "read_stats (with_stats m pid f) (fst e) = Some (snd e)"
    by (simp add: read_stats_def)
  then have r: "(if fst e = pid then (if resolvable m pid then Some (f (current m pid)) else None)
            else if evicts m pid \<and> fst e = lru_key m then None
            else read_stats m (fst e)) = Some (snd e)"
    by (simp only: ws_read[OF wf])
  show "major_faults (snd e) = 0 \<and> minor_faults (snd e) = 0"
  proof (cases "fst e = pid")
    case True
    with r have "snd e = f (current m pid)" by (simp split: if_splits)
    with cur f[of "current m pid"] show ?thesis by simp
  next
    case False
    with r have "read_stats m (fst e) = Some (snd e)" by (simp split: if_splits)
    then show ?thesis by (rule old)
  qed
qed

lemma ccs_no_faults:
  assumes "wf_map m" "no_faults m"
  shows "no_faults (fst (count_context_switches m ctx))"
proof (cases ctx)
  case None
  with assms show ?thesis by (simp add: count_context_switches_def)
next
  case (Some c)
  let ?f = "\<lambda>s::stats_t. s\<lparr>context_switches := context_switches s + 1\<rparr>"
  have "no_faults (with_stats m (prev_pid c) ?f)"
    by (rule ws_no_faults[OF assms]) simp
  then have "no_faults (with_stats (with_stats m (prev_pid c) ?f) (next_pid c) ?f)"
    by (rule ws_no_faults[OF ws_wf[OF assms(1)]]) simp
  with Some show ?thesis by (simp add: ccs_halves)
qed

lemma run_stats_no_faults:
  "wf_map m \<Longrightarrow> no_faults m \<Longrightarrow> no_faults (run_stats m evs)"
proof (induction evs arbitrary: m)
  case Nil
  then show ?case by simp
next
  case (Cons ev evs)
  from Cons.prems handle_wf[of m "Sched_switch ev"] have "wf_map (fst (count_context_switches m ev))"
    by simp
  moreover from Cons.prems have "no_faults (fst (count_context_switches m ev))"
    by (rule ccs_no_faults)
  ultimately show ?case using Cons.IH by simp
qed

subsection \<open>The table after a resolve and a write\<close>

lemma filter_keys_id: "k \<notin> fst ` set xs \<Longrightarrow> filter (\<lambda>e. fst e \<noteq> k) xs = xs"
  by (induction xs) auto

lemma take_filter_take:
  "distinct (map fst xs) \<Longrightarrow>
   take j (filter (\<lambda>e. fst e \<noteq> k) (take (Suc j) xs)) = take j (filter (\<lambda>e. fst e \<noteq> k) xs)"
proof (induction xs arbitrary: j)
  case Nil
  then show ?case by simp
next
  case (Cons e xs)
  show ?case
  proof (cases j)
    case 0
    then show ?thesis by simp
  next
    case (Suc i)
    show ?thesis
    proof (cases "fst e = k")
      case True
      with Cons.prems have "k \<notin> fst ` set xs" by auto
      moreover then have "k \<notin> fst ` set (take (Suc i) xs)"
        by (auto dest: in_set_takeD)
      ultimately show ?thesis using True Suc by (simp add: filter_keys_id)
    next
      case False
      with Cons Suc show ?thesis by simp
    qed
  qed
qed

lemma ws_entries_lru:
  assumes wf: "wf_map m" and lru: "map_type m = BPF_MAP_TYPE_LRU_HASH"
  shows "entries (with_stats m pid f) =
           (pid, f (current m pid)) #
           take (max_entries m - 1) (filter (\<lambda>e. fst e \<noteq> pid) (entries m))"
proof (cases m pid rule: goi_cases)
  case (present_hash v)
  with lru show ?thesis by simp
next
  case (present_lru v)
  let ?xs = "filter (\<lambda>e. fst e \<noteq> pid) (entries m)"
  have n: "map_of ?xs pid = None" by (simp add: map_of_filter_key)
  from present_lru have "(pid, v) \<in> set (entries m)"
    by (simp add: read_stats_def map_of_SomeD)
  then have "length ?xs < length (entries m)"
    by (intro length_filter_less[where x = "(pid, v)"]) auto
  moreover from wf have "length (entries m) \<le> max_entries m" by (simp add: wf_map_def)
  ultimately have len: "length ?xs \<le> max_entries m - 1" by linarith
  have "with_stats m pid f = store (m\<lparr>entries := (pid, v) # ?xs\<rparr>) pid f"
    using present_lru by (simp add: with_stats_def)
  also have "\<dots> = m\<lparr>entries := (pid, f v) # ?xs\<rparr>" using n by (rule store_front)
  finally show ?thesis using present_lru len by (simp add: current_def)
next
  case room
  then have n: "map_of (entries m) pid = None" by (simp add: read_stats_def)
  have "with_stats m pid f = store (m\<lparr>entries := (pid, zero_stats) # entries m\<rparr>) pid f"
    using room by (simp add: with_stats_def)
  also have "\<dots> = m\<lparr>entries := (pid, f zero_stats) # entries m\<rparr>" using n by (rule store_front)
  finally show ?thesis using room n by (simp add: current_def filter_key_absent)
next
  case full_hash
  with lru show ?thesis by simp
next
  case full_lru
  then have n: "map_of (entries m) pid = None" by (simp add: read_stats_def)
  then have nb: "map_of (butlast (entries m)) pid = None" by (rule map_of_butlast_None)
  from wf full_lru have len: "length (entries m) = max_entries m" by (simp add: wf_map_def)
  have "with_stats m pid f = store (m\<lparr>entries := (pid, zero_stats) # butlast (entries m)\<rparr>) pid f"
    using full_lru by (simp add: with_stats_def)
  also have "\<dots> = m\<lparr>entries := (pid, f zero_stats) # butlast (entries m)\<rparr>"
    using nb by (rule store_front)
  finally show ?thesis using full_lru n len
    by (simp add: current_def filter_key_absent butlast_conv_take)
qed

lemma ws_length_hash:
  assumes "map_type m = BPF_MAP_TYPE_HASH"
  shows "length (entries (with_stats m pid f)) =
           length (entries m) +
           (if read_stats m pid = None \<and> length (entries m) < max_entries m then 1 else 0)"
proof (cases m pid rule: goi_cases)
  case (present_hash v)
  then show ?thesis by (simp add: with_stats_def)
next
  case (present_lru v)
  with assms show ?thesis by simp
next
  case room
  then show ?thesis by (simp add: with_stats_def)
next
  case full_hash
  then show ?thesis by (simp add: with_stats_def)
next
  case full_lru
  with assms show ?thesis by simp
qed

lemma length_filter_key:
  "distinct (map fst xs) \<Longrightarrow> (k, v) \<in> set xs \<Longrightarrow>
   length (filter (\<lambda>e. fst e \<noteq> k) xs) = length xs - 1"
proof (induction xs)
  case Nil
  then show ?case by simp
next
  case (Cons e xs)
  show ?case
  proof (cases "fst e = k")
    case True
    with Cons.prems have "k \<notin> fst ` set xs" by auto
    with True show ?thesis by (simp add: filter_keys_id)
  next
    case False
    with Cons.prems have in_xs: "(k, v) \<in> set xs" by auto
    then have "xs \<noteq> []" by auto
    then have "0 < length xs" by simp
    with Cons in_xs False show ?thesis by simp
  qed
qed

lemma ws_length_lru_full:
  assumes wf: "wf_map m" and lru: "map_type m = BPF_MAP_TYPE_LRU_HASH"
    and full: "length (entries m) = max_entries m"
  shows "length (entries (with_stats m pid f)) = max_entries m"
proof (cases "read_stats m pid")
  case None
  then have "filter (\<lambda>e. fst e \<noteq> pid) (entries m) = entries m"
    by (simp add: read_stats_def filter_key_absent)
  with wf full show ?thesis
    by (simp add: ws_entries_lru[OF wf lru] wf_map_def)
next
  case (Some v)
  let ?xs = "filter (\<lambda>e. fst e \<noteq> pid) (entries m)"
  from Some have "(pid, v) \<in> set (entries m)" by (simp add: read_stats_def map_of_SomeD)
  moreover from wf have "distinct (map fst (entries m))" by (simp add: wf_map_def keys_def)
  ultimately have "length ?xs = length (entries m) - 1" by (rule length_filter_key[rotated])
  with wf full show ?thesis
    by (simp add: ws_entries_lru[OF wf lru] wf_map_def)
qed

section \<open>Properties\<close>

text \<open>
  C4. A handler invoked with an absent (null) event payload leaves the table exactly as
  it was and returns 0, the "handled" signal; this holds for the context-switch handler
  of both programs and for the page-fault handler, on every table and for every current
  process id.
\<close>

theorem null_ctx_is_noop:
  "count_context_switches m None = (m, 0) \<and> count_page_faults m None pid_tgid = (m, 0)"
  by (simp add: count_context_switches_def count_page_faults_def)

text \<open>
  C2 (as amended). For every non-null context-switch event on a well-formed table of
  capacity at least 2 (both programs declare 1024), the handler returns 0,
  resolves-or-creates a record for each of the two ids, the outgoing one first, and
  increments \<open>context_switches\<close> of each id that resolves by 1, by 2 when the two ids are
  equal; the fault counters of these records stay as they were.

  An id fails to resolve only under the unbounded policy, when it is absent and the table
  is full at its turn. The outgoing id resolves exactly when it is present, or the table
  has room, or the policy is LRU. The incoming id, when it differs, resolves exactly when
  the policy is LRU, or it is present, or the table still has room after a new outgoing id
  has taken its slot. An id that does not resolve has no record after the event.

  The increment counts from the id's record before the event, from a zero record when it
  had none, and for the incoming id also when inserting the outgoing id evicted it (LRU
  policy, full table, incoming id least recently touched).

  Under the unbounded policy every other record reads as before. Under the LRU policy the
  table after the event holds the incoming id's record, then the outgoing id's, then the
  other records in their earlier order, as many as the capacity leaves room for. The
  table stays well-formed and keeps its type and capacity.
\<close>

theorem context_switch_counts:
  assumes wf: "wf_map m" and cap: "2 \<le> max_entries m"
  shows "snd (count_context_switches m (Some c)) = 0 \<and>
    (let m' = fst (count_context_switches m (Some c));
         prev = prev_pid c; next = next_pid c;
         k = (if prev = next then 2 else 1);
         was_prev = current m prev;
         was_next = (if prev \<noteq> next \<and> evicts m prev \<and> next = lru_key m then zero_stats
                     else current m next);
         now_prev = was_prev\<lparr>context_switches := context_switches was_prev + k\<rparr>;
         now_next = was_next\<lparr>context_switches := context_switches was_next + k\<rparr>;
         prev_resolves = resolvable m prev;
         next_resolves =
           (if prev = next then resolvable m prev
            else map_type m = BPF_MAP_TYPE_LRU_HASH \<or> read_stats m next \<noteq> None \<or>
                 length (entries m) + (if read_stats m prev = None then 1 else 0) < max_entries m)
     in read_stats m' prev = (if prev_resolves then Some now_prev else None)
      \<and> read_stats m' next = (if next_resolves then Some now_next else None)
      \<and> (map_type m = BPF_MAP_TYPE_HASH \<longrightarrow>
           (\<forall>q. q \<noteq> prev \<and> q \<noteq> next \<longrightarrow> read_stats m' q = read_stats m q))
      \<and> (map_type m = BPF_MAP_TYPE_LRU_HASH \<longrightarrow>
           entries m' =
             (if prev = next then [(prev, now_prev)] else [(next, now_next), (prev, now_prev)]) @
             take (max_entries m - (if prev = next then 1 else 2))
               (filter (\<lambda>e. fst e \<noteq> prev \<and> fst e \<noteq> next) (entries m)))
      \<and> wf_map m' \<and> map_type m' = map_type m \<and> max_entries m' = max_entries m)"
proof -
  let ?f = "\<lambda>s::stats_t. s\<lparr>context_switches := context_switches s + 1\<rparr>"
  let ?prev = "prev_pid c" and ?next = "next_pid c"
  let ?m1 = "with_stats m ?prev ?f"
  let ?m' = "with_stats ?m1 ?next ?f"
  let ?n = "max_entries m"
  have run: "count_context_switches m (Some c) = (?m', 0)" by (rule ccs_halves)
  have wf1: "wf_map ?m1" by (rule ws_wf[OF wf])
  have wf': "wf_map ?m'" by (rule ws_wf[OF wf1])
  have r1: "read_stats ?m1 q =
           (if q = ?prev then (if resolvable m ?prev then Some (?f (current m ?prev)) else None)
            else if evicts m ?prev \<and> q = lru_key m then None
            else read_stats m q)" for q
    by (rule ws_read[OF wf])
  have r2: "read_stats ?m' q =
           (if q = ?next then (if resolvable ?m1 ?next then Some (?f (current ?m1 ?next)) else None)
            else if evicts ?m1 ?next \<and> q = lru_key ?m1 then None
            else read_stats ?m1 q)" for q
    by (rule ws_read[OF wf1])
  have keep: "\<not> (evicts ?m1 ?next \<and> ?prev = lru_key ?m1)"
  proof
    assume a: "evicts ?m1 ?next \<and> ?prev = lru_key ?m1"
    then have lru: "map_type m = BPF_MAP_TYPE_LRU_HASH" and "\<not> length (entries ?m1) < max_entries m"
      by (simp_all add: evicts_def)
    with cap have "2 \<le> length (entries ?m1)" by simp
    from ws_lru_key[OF wf lru this] a show False by simp
  qed
  have hash_no_evict: "map_type m = BPF_MAP_TYPE_HASH \<Longrightarrow> \<not> evicts m p \<and> \<not> evicts ?m1 p" for p
    by (simp add: evicts_def)
  show ?thesis
  proof (cases "?prev = ?next")
    case True
    have lru_entries: "entries ?m' = [(?prev, ?f (?f (current m ?prev)))] @
        take (?n - 1) (filter (\<lambda>e. fst e \<noteq> ?prev \<and> fst e \<noteq> ?next) (entries m))"
      if lru: "map_type m = BPF_MAP_TYPE_LRU_HASH"
    proof -
      let ?X = "filter (\<lambda>e. fst e \<noteq> ?prev) (entries m)"
      have e1: "entries ?m1 = (?prev, ?f (current m ?prev)) # take (?n - 1) ?X"
        by (rule ws_entries_lru[OF wf lru])
      then have c1: "current ?m1 ?prev = ?f (current m ?prev)"
        by (simp add: current_def read_stats_def)
      have "?prev \<notin> fst ` set (take (?n - 1) ?X)" by (auto dest: in_set_takeD)
      then have fid: "filter (\<lambda>e. fst e \<noteq> ?prev) (take (?n - 1) ?X) = take (?n - 1) ?X"
        by (rule filter_keys_id)
      from lru have lru1: "map_type ?m1 = BPF_MAP_TYPE_LRU_HASH" by simp
      have "entries ?m' = (?next, ?f (current ?m1 ?next)) #
          take (max_entries ?m1 - 1) (filter (\<lambda>e. fst e \<noteq> ?next) (entries ?m1))"
        by (rule ws_entries_lru[OF wf1 lru1])
      with True e1 c1 fid show ?thesis by simp
    qed
    show ?thesis
    proof (cases "resolvable m ?prev")
      case res: True
      with r1[of ?prev] have p1: "read_stats ?m1 ?prev = Some (?f (current m ?prev))" by simp
      then have "resolvable ?m1 ?prev" "current ?m1 ?prev = ?f (current m ?prev)"
        by (simp_all add: resolvable_def current_def)
      with r2[of ?prev] True have "read_stats ?m' ?prev = Some (?f (?f (current m ?prev)))"
        by simp
      moreover have "q \<noteq> ?prev \<Longrightarrow> map_type m = BPF_MAP_TYPE_HASH \<Longrightarrow>
          read_stats ?m' q = read_stats m q" for q
        using True r1[of q] r2[of q] hash_no_evict by simp
      ultimately show ?thesis
        using True res lru_entries wf'
        by (simp add: run Let_def)
    next
      case nres: False
      then have "?m1 = m" by (rule ws_unresolvable)
      with nres True have "?m' = m" by (simp add: ws_unresolvable)
      moreover from nres have "read_stats m ?prev = None" "map_type m \<noteq> BPF_MAP_TYPE_LRU_HASH"
        by (simp_all add: resolvable_def)
      ultimately show ?thesis using nres True wf
        by (simp add: run Let_def)
    qed
  next
    case False
    from False keep r2[of ?prev] have p': "read_stats ?m' ?prev = read_stats ?m1 ?prev"
      by auto
    have c1: "current ?m1 ?next =
        (if evicts m ?prev \<and> ?next = lru_key m then zero_stats else current m ?next)"
      using False r1[of ?next] by (auto simp: current_def)
    have others: "map_type m = BPF_MAP_TYPE_HASH \<Longrightarrow> q \<noteq> ?prev \<Longrightarrow> q \<noteq> ?next \<Longrightarrow>
        read_stats ?m' q = read_stats m q" for q
      using r1[of q] r2[of q] hash_no_evict by simp
    have res_next: "resolvable ?m1 ?next =
        (map_type m = BPF_MAP_TYPE_LRU_HASH \<or> read_stats m ?next \<noteq> None \<or>
         length (entries m) + (if read_stats m ?prev = None then 1 else 0) < max_entries m)"
    proof (cases "map_type m")
      case BPF_MAP_TYPE_HASH
      with False r1[of ?next] hash_no_evict
      have "read_stats ?m1 ?next = read_stats m ?next" by simp
      with BPF_MAP_TYPE_HASH ws_length_hash[OF BPF_MAP_TYPE_HASH, of ?prev ?f]
      show ?thesis by (auto simp: resolvable_def)
    next
      case BPF_MAP_TYPE_LRU_HASH
      then show ?thesis by (simp add: resolvable_def)
    qed
    have lru_entries: "entries ?m' =
        [(?next, ?f (current ?m1 ?next)), (?prev, ?f (current m ?prev))] @
        take (?n - 2) (filter (\<lambda>e. fst e \<noteq> ?prev \<and> fst e \<noteq> ?next) (entries m))"
      if lru: "map_type m = BPF_MAP_TYPE_LRU_HASH"
    proof -
      let ?X = "filter (\<lambda>e. fst e \<noteq> ?prev) (entries m)"
      from cap obtain j where n: "?n = Suc (Suc j)"
        by (metis Suc_le_D numeral_2_eq_2 Suc_le_mono)
      have e1: "entries ?m1 = (?prev, ?f (current m ?prev)) # take (Suc j) ?X"
        using ws_entries_lru[OF wf lru, of ?prev ?f] n by simp
      from wf have "distinct (map fst ?X)"
        by (simp add: wf_map_def keys_def distinct_map_filter)
      then have tf: "take j (filter (\<lambda>e. fst e \<noteq> ?next) (take (Suc j) ?X)) =
          take j (filter (\<lambda>e. fst e \<noteq> ?next) ?X)"
        by (rule take_filter_take)
      have ff: "filter (\<lambda>e. fst e \<noteq> ?next) ?X =
          filter (\<lambda>e. fst e \<noteq> ?prev \<and> fst e \<noteq> ?next) (entries m)"
        by (simp add: conj_commute)
      from lru have lru1: "map_type ?m1 = BPF_MAP_TYPE_LRU_HASH" by simp
      have "entries ?m' = (?next, ?f (current ?m1 ?next)) #
          take (max_entries ?m1 - 1) (filter (\<lambda>e. fst e \<noteq> ?next) (entries ?m1))"
        by (rule ws_entries_lru[OF wf1 lru1])
      with False e1 n tf ff show ?thesis by simp
    qed
    show ?thesis
      unfolding run Let_def fst_conv snd_conv
      using False p' r1[of ?prev] r2[of ?next] c1 others res_next lru_entries wf'
      by (simp add: resolvable_def)
  qed
qed

text \<open>
  On the empty table of \<open>stats.c\<close> a switch from pid 1 to pid 2 creates both records with
  one context switch each; on the empty table of \<open>stats-v2.c\<close> a self-switch of pid 10
  leaves exactly one record, with two context switches.
\<close>

theorem context_switch_counts_witness:
  "wf_map stats_map \<and> 2 \<le> max_entries stats_map \<and>
   read_stats (fst (count_context_switches stats_map (Some \<lparr>prev_pid = 1, next_pid = 2\<rparr>))) 1 =
     Some (zero_stats\<lparr>context_switches := 1\<rparr>) \<and>
   read_stats (fst (count_context_switches stats_map (Some \<lparr>prev_pid = 1, next_pid = 2\<rparr>))) 2 =
     Some (zero_stats\<lparr>context_switches := 1\<rparr>) \<and>
   wf_map stats_map_v2 \<and> 2 \<le> max_entries stats_map_v2 \<and>
   read_stats (fst (count_context_switches stats_map_v2 (Some (self_switch 10)))) 10 =
     Some (zero_stats\<lparr>context_switches := 2\<rparr>) \<and>
   entries (fst (count_context_switches stats_map_v2 (Some (self_switch 10)))) =
     [(10, zero_stats\<lparr>context_switches := 2\<rparr>)]"
proof -
  have wf: "wf_map stats_map" and cap: "2 \<le> max_entries stats_map"
    by (simp_all add: wf_map_def stats_map_def keys_def)
  have wf2: "wf_map stats_map_v2" and cap2: "2 \<le> max_entries stats_map_v2"
    by (simp_all add: wf_map_def stats_map_v2_def keys_def)
  have e: "resolvable stats_map 1" "current stats_map 1 = zero_stats"
    "current stats_map 2 = zero_stats" "\<not> evicts stats_map 1"
    "read_stats stats_map 1 = None" "read_stats stats_map 2 = None"
    "length (entries stats_map) = 0" "max_entries stats_map = 1024"
    by (simp_all add: resolvable_def current_def evicts_def read_stats_def stats_map_def)
  have e2: "resolvable stats_map_v2 10" "current stats_map_v2 10 = zero_stats"
    "map_type stats_map_v2 = BPF_MAP_TYPE_LRU_HASH" "entries stats_map_v2 = []"
    by (simp_all add: resolvable_def current_def read_stats_def stats_map_v2_def)
  from context_switch_counts[OF wf cap, of "\<lparr>prev_pid = 1, next_pid = 2\<rparr>"] e
  have a: "read_stats (fst (count_context_switches stats_map (Some \<lparr>prev_pid = 1, next_pid = 2\<rparr>))) 1 =
     Some (zero_stats\<lparr>context_switches := 1\<rparr>)"
    "read_stats (fst (count_context_switches stats_map (Some \<lparr>prev_pid = 1, next_pid = 2\<rparr>))) 2 =
     Some (zero_stats\<lparr>context_switches := 1\<rparr>)"
    by (simp_all add: Let_def zero_stats_def)
  from context_switch_counts[OF wf2 cap2, of "self_switch 10"] e2
  have b: "read_stats (fst (count_context_switches stats_map_v2 (Some (self_switch 10)))) 10 =
     Some (zero_stats\<lparr>context_switches := 2\<rparr>)"
    "entries (fst (count_context_switches stats_map_v2 (Some (self_switch 10)))) =
     [(10, zero_stats\<lparr>context_switches := 2\<rparr>)]"
    by (simp_all add: Let_def self_switch_def zero_stats_def)
  from wf cap wf2 cap2 a b show ?thesis by simp
qed

text \<open>
  C2 as stated fails under the unbounded policy at capacity: after the 1024 warm-up events
  of \<open>stats.c\<close>, a self-switch of the new id 5000 leaves the table as it was, and id 5000
  has no record, so nothing was incremented for it.
\<close>

theorem context_switch_dropped_at_capacity:
  "run_stats stats_map (warm_up @ [Some (self_switch 5000)]) = run_stats stats_map warm_up \<and>
   read_stats (run_stats stats_map (warm_up @ [Some (self_switch 5000)])) 5000 = None"
proof -
  let ?full = "full_table BPF_MAP_TYPE_HASH"
  have full: "run_stats stats_map warm_up = ?full"
    unfolding warm_up_def by (rule full_table_reached(1))
  have absent: "read_stats ?full 5000 = None" by (rule full_read_None) simp
  then have "\<not> resolvable ?full 5000" by (simp add: resolvable_def)
  then have "fst (count_context_switches ?full (Some (self_switch 5000))) = ?full"
    by (simp add: ccs_halves self_switch_def ws_unresolvable)
  with full absent show ?thesis by (simp add: run_stats_append)
qed

text \<open>
  C3. For every non-null page-fault event on a well-formed table, when the record of the
  current process id (the upper 32 bits of \<open>pid_tgid\<close>) is resolved, the handler returns 0
  and exactly one fault counter of that record is incremented, counting from the record
  before the event (a zero record when the id had none): with bit 0 of the error code set,
  \<open>minor_faults\<close> grows by 1 and \<open>major_faults\<close> is as it was; with bit 0 clear,
  \<open>major_faults\<close> grows by 1 and \<open>minor_faults\<close> is as it was; \<open>context_switches\<close> is
  untouched. Never both counters change and never neither.
\<close>

theorem page_fault_counts_one:
  assumes wf: "wf_map m"
    and res: "snd (get_or_init_stats m (ucast (drop_bit 32 pid_tgid))) \<noteq> None"
  shows "snd (count_page_faults m (Some c) pid_tgid) = 0 \<and>
    (let pid = (ucast (drop_bit 32 pid_tgid) :: u32);
         was = current m pid;
         m' = fst (count_page_faults m (Some c) pid_tgid)
     in (bit (error_code c) 0 \<longrightarrow>
           read_stats m' pid = Some (was\<lparr>minor_faults := minor_faults was + 1\<rparr>))
      \<and> (\<not> bit (error_code c) 0 \<longrightarrow>
           read_stats m' pid = Some (was\<lparr>major_faults := major_faults was + 1\<rparr>))
      \<and> (\<exists>now. read_stats m' pid = Some now \<and>
             context_switches now = context_switches was \<and>
             (minor_faults now \<noteq> minor_faults was) \<noteq> (major_faults now \<noteq> major_faults was)))"
proof -
  let ?pid = "ucast (drop_bit 32 pid_tgid) :: u32"
  from res have r: "resolvable m ?pid" by (simp add: goi_result split: if_splits)
  show ?thesis
    using r by (simp add: cpf_with ws_read[OF wf] Let_def and_1_bit0)
qed

text \<open>
  The scenario of the spec: a fault of pid 7 with error code 1, then one with error code 0.
\<close>

theorem page_fault_counts_one_witness:
  "wf_map stats_map_v2 \<and>
   snd (get_or_init_stats stats_map_v2 (ucast (drop_bit 32 (30064771072 :: u64)))) \<noteq> None \<and>
   read_stats (fst (count_page_faults stats_map_v2 (Some (fault_event 1)) 30064771072)) 7 =
     Some \<lparr>context_switches = 0, major_faults = 0, minor_faults = 1\<rparr> \<and>
   read_stats (fst (count_page_faults
       (fst (count_page_faults stats_map_v2 (Some (fault_event 1)) 30064771072))
       (Some (fault_event 0)) 30064771072)) 7 =
     Some \<lparr>context_switches = 0, major_faults = 1, minor_faults = 1\<rparr>"
proof -
  let ?m1 = "fst (count_page_faults stats_map_v2 (Some (fault_event 1)) 30064771072)"
  have pid: "(ucast (drop_bit 32 (30064771072 :: u64)) :: u32) = 7" by simp
  have wf: "wf_map stats_map_v2"
    by (simp add: wf_map_def stats_map_v2_def keys_def)
  have res: "snd (get_or_init_stats stats_map_v2 (ucast (drop_bit 32 (30064771072 :: u64)))) \<noteq> None"
    by (simp add: goi_result resolvable_def stats_map_v2_def)
  have cur: "current stats_map_v2 7 = zero_stats"
    by (simp add: current_def read_stats_def stats_map_v2_def)
  have one: "read_stats ?m1 7 = Some \<lparr>context_switches = 0, major_faults = 0, minor_faults = 1\<rparr>"
    using page_fault_counts_one[OF wf res, of "fault_event 1"] cur
    by (simp add: pid Let_def fault_event_def zero_stats_def)
  have wf1: "wf_map ?m1" by (simp add: cpf_with ws_wf wf)
  have res1: "snd (get_or_init_stats ?m1 (ucast (drop_bit 32 (30064771072 :: u64)))) \<noteq> None"
    by (simp add: goi_result resolvable_def cpf_with stats_map_v2_def)
  from one have cur1: "current ?m1 7 = \<lparr>context_switches = 0, major_faults = 0, minor_faults = 1\<rparr>"
    by (simp add: current_def)
  have two: "read_stats (fst (count_page_faults ?m1 (Some (fault_event 0)) 30064771072)) 7 =
     Some \<lparr>context_switches = 0, major_faults = 1, minor_faults = 1\<rparr>"
    using page_fault_counts_one[OF wf1 res1, of "fault_event 0"] cur1
    by (simp add: pid Let_def fault_event_def)
  from wf res one two show ?thesis by simp
qed

text \<open>
  C5. Under the unbounded policy (\<open>BPF_MAP_TYPE_HASH\<close>, capacity 1024), when 1024 distinct
  ids are present and \<open>pid\<close> is a new one: resolve-or-create returns null and leaves the
  table as it is; a self-switch of \<open>pid\<close> returns 0 and leaves the table as it is; and
  every context-switch event that carries \<open>pid\<close> leaves the key set as it was, gives \<open>pid\<close>
  no record, and leaves each of the 1024 present ids readable with its record as before,
  \<open>context_switches\<close> increased by 1 for the id that is the other party of the event.
\<close>

theorem unbounded_at_capacity:
  assumes wf: "wf_map m" and ty: "map_type m = BPF_MAP_TYPE_HASH"
    and cap: "max_entries m = 1024" and full: "length (entries m) = 1024"
    and new: "read_stats m pid = None"
  shows "get_or_init_stats m pid = (m, None) \<and>
    count_context_switches m (Some (self_switch pid)) = (m, 0) \<and>
    (\<forall>c. prev_pid c = pid \<or> next_pid c = pid \<longrightarrow>
       (let m' = fst (count_context_switches m (Some c))
        in keys m' = keys m \<and> read_stats m' pid = None \<and>
           (\<forall>q. read_stats m q \<noteq> None \<longrightarrow>
              read_stats m' q =
                Some ((current m q)\<lparr>context_switches := context_switches (current m q) +
                   (if q = prev_pid c \<or> q = next_pid c then 1 else 0)\<rparr>))))"
proof -
  let ?f = "\<lambda>s::stats_t. s\<lparr>context_switches := context_switches s + 1\<rparr>"
  from cap full have nroom: "\<not> length (entries m) < max_entries m" by simp
  have a: "get_or_init_stats m pid = (m, None)"
    using new nroom ty by (rule goi_full_hash)
  have h: "with_stats m q ?f = (if read_stats m q = None then m else store m q ?f)" for q
    using ty nroom by (rule ws_full_hash)
  have h': "with_stats (store m p ?f) q ?f =
      (if read_stats (store m p ?f) q = None then store m p ?f else store (store m p ?f) q ?f)" for p q
    using ty nroom by (intro ws_full_hash) simp_all
  have b: "count_context_switches m (Some (self_switch pid)) = (m, 0)"
    using new by (simp add: ccs_halves self_switch_def h)
  have c: "keys m' = keys m \<and> read_stats m' pid = None \<and>
           (\<forall>q. read_stats m q \<noteq> None \<longrightarrow>
              read_stats m' q =
                Some ((current m q)\<lparr>context_switches := context_switches (current m q) +
                   (if q = prev_pid c \<or> q = next_pid c then 1 else 0)\<rparr>))"
    if ev: "prev_pid c = pid \<or> next_pid c = pid"
      and m': "m' = fst (count_context_switches m (Some c))" for c m'
  proof (cases "prev_pid c = pid")
    case True
    with new have "m' = with_stats m (next_pid c) ?f"
      by (simp add: m' ccs_halves h)
    with new True show ?thesis
      by (auto simp: h current_def)
  next
    case False
    with ev have nx: "next_pid c = pid" by simp
    show ?thesis
    proof (cases "read_stats m (prev_pid c)")
      case None
      with new nx have "m' = m" by (simp add: m' ccs_halves h)
      with new None nx show ?thesis by (auto simp: current_def)
    next
      case (Some v)
      with new nx False have "m' = store m (prev_pid c) ?f"
        by (simp add: m' ccs_halves h h')
      with new nx False show ?thesis by (auto simp: current_def)
    qed
  qed
  from a b c show ?thesis by (simp add: Let_def)
qed

theorem unbounded_at_capacity_witness:
  "wf_map (full_table BPF_MAP_TYPE_HASH) \<and>
   map_type (full_table BPF_MAP_TYPE_HASH) = BPF_MAP_TYPE_HASH \<and>
   max_entries (full_table BPF_MAP_TYPE_HASH) = 1024 \<and>
   length (entries (full_table BPF_MAP_TYPE_HASH)) = 1024 \<and>
   read_stats (full_table BPF_MAP_TYPE_HASH) 5000 = None \<and>
   get_or_init_stats (full_table BPF_MAP_TYPE_HASH) 5000 = (full_table BPF_MAP_TYPE_HASH, None) \<and>
   count_context_switches (full_table BPF_MAP_TYPE_HASH) (Some (self_switch 5000)) =
     (full_table BPF_MAP_TYPE_HASH, 0) \<and>
   read_stats (fst (count_context_switches (full_table BPF_MAP_TYPE_HASH)
       (Some \<lparr>prev_pid = 5000, next_pid = 3\<rparr>))) 3 =
     Some \<lparr>context_switches = 3, major_faults = 0, minor_faults = 0\<rparr>"
proof -
  let ?m = "full_table BPF_MAP_TYPE_HASH"
  have new: "read_stats ?m 5000 = None" by (rule full_read_None) simp
  have three: "read_stats ?m 3 = Some (zero_stats\<lparr>context_switches := 2\<rparr>)"
    by (rule full_read_Some) simp
  note u = unbounded_at_capacity[OF full_wf full_fields(1) full_fields(2) full_fields(3) new]
  from u have "read_stats (fst (count_context_switches ?m (Some \<lparr>prev_pid = 5000, next_pid = 3\<rparr>))) 3 =
     Some \<lparr>context_switches = 3, major_faults = 0, minor_faults = 0\<rparr>"
    using three by (simp add: Let_def current_def zero_stats_def)
  with u new full_wf[of BPF_MAP_TYPE_HASH] show ?thesis by simp
qed

text \<open>
  C6. Under the LRU policy (\<open>BPF_MAP_TYPE_LRU_HASH\<close>, capacity 1024), when 1024 distinct ids
  are present and \<open>pid\<close> is a new one: resolve-or-create returns the record of \<open>pid\<close>, a zero
  record; the table still has 1024 entries; of the ids present before, exactly one is no
  longer readable, the least recently touched one; every other id reads as before.

  The event of the new id is never dropped. Every context-switch event that carries
  \<open>pid\<close>, as outgoing or as incoming id and with any other id, leaves \<open>pid\<close> with a record
  that counts 1 context switch (2 for a self-switch), in a table of 1024 entries; every
  page fault of \<open>pid\<close> leaves it with a record that counts the one fault. After a
  self-switch or a page fault of \<open>pid\<close>, every other id reads as before, except the least
  recently touched one, which is gone.
\<close>

theorem lru_at_capacity:
  assumes wf: "wf_map m" and ty: "map_type m = BPF_MAP_TYPE_LRU_HASH"
    and cap: "max_entries m = 1024" and full: "length (entries m) = 1024"
    and new: "read_stats m pid = None"
  shows "(let m' = fst (get_or_init_stats m pid)
          in snd (get_or_init_stats m pid) = Some pid \<and>
             read_stats m' pid = Some zero_stats \<and>
             length (entries m') = 1024 \<and>
             read_stats m (lru_key m) \<noteq> None \<and>
             (\<forall>q. read_stats m q \<noteq> None \<longrightarrow> (read_stats m' q = None) = (q = lru_key m)) \<and>
             (\<forall>q. q \<noteq> lru_key m \<and> q \<noteq> pid \<longrightarrow> read_stats m' q = read_stats m q)) \<and>
         read_stats (fst (count_context_switches m (Some (self_switch pid)))) pid =
           Some (zero_stats\<lparr>context_switches := 2\<rparr>) \<and>
         (\<forall>c pid_tgid. ucast (drop_bit 32 pid_tgid) = pid \<longrightarrow>
            read_stats (fst (count_page_faults m (Some c) pid_tgid)) pid =
              Some (if bit (error_code c) 0 then zero_stats\<lparr>minor_faults := 1\<rparr>
                    else zero_stats\<lparr>major_faults := 1\<rparr>)) \<and>
         (\<forall>c. prev_pid c = pid \<or> next_pid c = pid \<longrightarrow>
            read_stats (fst (count_context_switches m (Some c))) pid =
              Some (zero_stats\<lparr>context_switches := (if prev_pid c = next_pid c then 2 else 1)\<rparr>) \<and>
            length (entries (fst (count_context_switches m (Some c)))) = 1024) \<and>
         (\<forall>q. q \<noteq> pid \<longrightarrow>
            read_stats (fst (count_context_switches m (Some (self_switch pid)))) q =
              (if q = lru_key m then None else read_stats m q)) \<and>
         (\<forall>c pid_tgid q. ucast (drop_bit 32 pid_tgid) = pid \<and> q \<noteq> pid \<longrightarrow>
            read_stats (fst (count_page_faults m (Some c) pid_tgid)) q =
              (if q = lru_key m then None else read_stats m q))"
proof -
  let ?f = "\<lambda>s::stats_t. s\<lparr>context_switches := context_switches s + 1\<rparr>"
  from cap full have nroom: "\<not> length (entries m) < max_entries m" by simp
  have g: "get_or_init_stats m pid = (m\<lparr>entries := (pid, zero_stats) # butlast (entries m)\<rparr>, Some pid)"
    using new nroom ty by (rule goi_full_lru)
  have ev: "evicts m pid" and res: "resolvable m pid" and cur: "current m pid = zero_stats"
    using new nroom ty by (simp_all add: evicts_def resolvable_def current_def)
  from full have ne: "entries m \<noteq> []" by auto
  then have "last (entries m) \<in> set (entries m)" by simp
  then have "lru_key m \<in> set (keys m)" by (simp add: lru_key_def keys_def)
  then have old: "read_stats m (lru_key m) \<noteq> None" by (simp add: read_None_keys)
  with new have neq: "lru_key m \<noteq> pid" by auto
  have rd: "read_stats (fst (get_or_init_stats m pid)) q =
      (if q = pid then Some zero_stats else if q = lru_key m then None else read_stats m q)" for q
    using ev res cur by (simp add: goi_read[OF wf])
  have len: "length (entries (fst (get_or_init_stats m pid))) = 1024"
    using full by (simp add: g)
  have first: "snd (get_or_init_stats m pid) = Some pid \<and>
             read_stats (fst (get_or_init_stats m pid)) pid = Some zero_stats \<and>
             length (entries (fst (get_or_init_stats m pid))) = 1024 \<and>
             read_stats m (lru_key m) \<noteq> None \<and>
             (\<forall>q. read_stats m q \<noteq> None \<longrightarrow>
                (read_stats (fst (get_or_init_stats m pid)) q = None) = (q = lru_key m)) \<and>
             (\<forall>q. q \<noteq> lru_key m \<and> q \<noteq> pid \<longrightarrow>
                read_stats (fst (get_or_init_stats m pid)) q = read_stats m q)"
    using new old len neq by (auto simp: rd goi_result res)
  let ?m1 = "with_stats m pid ?f"
  have r1: "read_stats ?m1 pid = Some (?f zero_stats)"
    using res cur by (simp add: ws_read[OF wf])
  then have "resolvable ?m1 pid" "current ?m1 pid = ?f zero_stats"
    by (simp_all add: resolvable_def current_def)
  then have "read_stats (with_stats ?m1 pid ?f) pid = Some (?f (?f zero_stats))"
    by (simp add: ws_read[OF ws_wf[OF wf]])
  then have second: "read_stats (fst (count_context_switches m (Some (self_switch pid)))) pid =
           Some (zero_stats\<lparr>context_switches := 2\<rparr>)"
    by (simp add: ccs_halves self_switch_def zero_stats_def)
  have third: "read_stats (fst (count_page_faults m (Some c) pid_tgid)) pid =
              Some (if bit (error_code c) 0 then zero_stats\<lparr>minor_faults := 1\<rparr>
                    else zero_stats\<lparr>major_faults := 1\<rparr>)"
    if "ucast (drop_bit 32 pid_tgid) = pid" for c pid_tgid
    using that res cur by (simp add: cpf_with ws_read[OF wf] and_1_bit0 zero_stats_def)
  have wf1: "wf_map ?m1" by (rule ws_wf[OF wf])
  have fourth: "read_stats (fst (count_context_switches m (Some c))) pid =
      Some (zero_stats\<lparr>context_switches := (if prev_pid c = next_pid c then 2 else 1)\<rparr>)"
    if c: "prev_pid c = pid \<or> next_pid c = pid" for c
  proof (cases "prev_pid c = pid")
    case True
    show ?thesis
    proof (cases "next_pid c = pid")
      case both: True
      with True have "c = self_switch pid" by (simp add: self_switch_def)
      with second True both show ?thesis by simp
    next
      case False
      have "\<not> (evicts ?m1 (next_pid c) \<and> pid = lru_key ?m1)"
      proof
        assume a: "evicts ?m1 (next_pid c) \<and> pid = lru_key ?m1"
        then have "\<not> length (entries ?m1) < max_entries m" by (simp add: evicts_def)
        with cap have "2 \<le> length (entries ?m1)" by simp
        from ws_lru_key[OF wf ty this] a show False by simp
      qed
      with False r1 have "read_stats (with_stats ?m1 (next_pid c) ?f) pid = Some (?f zero_stats)"
        by (auto simp: ws_read[OF wf1])
      with True False show ?thesis by (simp add: ccs_halves zero_stats_def)
    qed
  next
    case False
    with c have nx: "next_pid c = pid" by simp
    let ?m2 = "with_stats m (prev_pid c) ?f"
    from False new have "read_stats ?m2 pid = None" by (simp add: ws_read[OF wf])
    then have cur2: "current ?m2 pid = zero_stats" by (simp add: current_def)
    from ty have "resolvable ?m2 pid" by (simp add: resolvable_def)
    with cur2 have "read_stats (with_stats ?m2 pid ?f) pid = Some (?f zero_stats)"
      by (simp add: ws_read[OF ws_wf[OF wf]])
    with False nx show ?thesis by (simp add: ccs_halves zero_stats_def)
  qed
  have fifth: "read_stats (fst (count_context_switches m (Some (self_switch pid)))) q =
      (if q = lru_key m then None else read_stats m q)" if "q \<noteq> pid" for q
  proof -
    from r1 have "\<not> evicts ?m1 pid" by (simp add: evicts_def)
    with that ev show ?thesis
      by (simp add: ccs_halves self_switch_def ws_read[OF wf1] ws_read[OF wf])
  qed
  have sixth: "read_stats (fst (count_page_faults m (Some c) pid_tgid)) q =
      (if q = lru_key m then None else read_stats m q)"
    if "ucast (drop_bit 32 pid_tgid) = pid" "q \<noteq> pid" for c pid_tgid q
    using that ev by (simp add: cpf_with ws_read[OF wf])
  have len1: "length (entries (with_stats m p ?f)) = max_entries m" for p
    using cap full by (intro ws_length_lru_full[OF wf ty]) simp
  have len2: "length (entries (fst (count_context_switches m (Some c)))) = 1024" for c
    using ws_length_lru_full[OF ws_wf[OF wf, of "prev_pid c" ?f], of "next_pid c" ?f] ty len1 cap
    by (simp add: ccs_halves)
  from first second third fourth fifth sixth len2 show ?thesis by (simp add: Let_def)
qed

theorem lru_at_capacity_witness:
  "wf_map (full_table BPF_MAP_TYPE_LRU_HASH) \<and>
   map_type (full_table BPF_MAP_TYPE_LRU_HASH) = BPF_MAP_TYPE_LRU_HASH \<and>
   max_entries (full_table BPF_MAP_TYPE_LRU_HASH) = 1024 \<and>
   length (entries (full_table BPF_MAP_TYPE_LRU_HASH)) = 1024 \<and>
   read_stats (full_table BPF_MAP_TYPE_LRU_HASH) 5000 = None \<and>
   lru_key (full_table BPF_MAP_TYPE_LRU_HASH) = 0 \<and>
   snd (get_or_init_stats (full_table BPF_MAP_TYPE_LRU_HASH) 5000) = Some 5000 \<and>
   read_stats (fst (get_or_init_stats (full_table BPF_MAP_TYPE_LRU_HASH) 5000)) 5000 = Some zero_stats \<and>
   read_stats (fst (get_or_init_stats (full_table BPF_MAP_TYPE_LRU_HASH) 5000)) 0 = None \<and>
   read_stats (fst (get_or_init_stats (full_table BPF_MAP_TYPE_LRU_HASH) 5000)) 1 =
     Some (zero_stats\<lparr>context_switches := 2\<rparr>) \<and>
   read_stats (fst (count_context_switches (full_table BPF_MAP_TYPE_LRU_HASH)
       (Some \<lparr>prev_pid = 3, next_pid = 5000\<rparr>))) 5000 =
     Some (zero_stats\<lparr>context_switches := 1\<rparr>) \<and>
   read_stats (fst (count_context_switches (full_table BPF_MAP_TYPE_LRU_HASH)
       (Some \<lparr>prev_pid = 5000, next_pid = 3\<rparr>))) 5000 =
     Some (zero_stats\<lparr>context_switches := 1\<rparr>)"
proof -
  let ?m = "full_table BPF_MAP_TYPE_LRU_HASH"
  have new: "read_stats ?m 5000 = None" by (rule full_read_None) simp
  have one: "read_stats ?m 1 = Some (zero_stats\<lparr>context_switches := 2\<rparr>)"
    by (rule full_read_Some) simp
  note u = lru_at_capacity[OF full_wf full_fields(1) full_fields(2) full_fields(3) new]
  from u have "read_stats (fst (get_or_init_stats ?m 5000)) 0 = None"
    using full_lru_key[of BPF_MAP_TYPE_LRU_HASH] by (simp add: Let_def)
  moreover from u have "read_stats (fst (get_or_init_stats ?m 5000)) 1 = read_stats ?m 1"
    using full_lru_key[of BPF_MAP_TYPE_LRU_HASH] by (simp add: Let_def)
  moreover from u have
    "read_stats (fst (count_context_switches ?m (Some \<lparr>prev_pid = 3, next_pid = 5000\<rparr>))) 5000 =
       Some (zero_stats\<lparr>context_switches := 1\<rparr>)"
    "read_stats (fst (count_context_switches ?m (Some \<lparr>prev_pid = 5000, next_pid = 3\<rparr>))) 5000 =
       Some (zero_stats\<lparr>context_switches := 1\<rparr>)"
    by (simp_all add: Let_def)
  ultimately show ?thesis
    using u new one full_wf[of BPF_MAP_TYPE_LRU_HASH] full_lru_key[of BPF_MAP_TYPE_LRU_HASH]
    by (simp add: Let_def)
qed

text \<open>
  C1. \<open>get_or_init_stats\<close> is the three-step algorithm of the spec: it equals
  \<open>resolve_or_create\<close> on every table and id. In particular, when the id is found the
  result is the result of the first lookup (nothing is inserted); when it is not found the
  result is the result of the second lookup, made after the insert-or-overwrite of a zero
  record; a record created on the way reads as the zero record; and the result is null
  exactly when the id is still absent after the insertion. There is no error result: the
  function returns a pointer or null.
\<close>

theorem get_or_init_stats_algorithm:
  "get_or_init_stats m pid = resolve_or_create m pid \<and>
   (read_stats m pid \<noteq> None \<longrightarrow> get_or_init_stats m pid = bpf_map_lookup_elem m pid) \<and>
   (read_stats m pid = None \<longrightarrow>
      get_or_init_stats m pid =
        bpf_map_lookup_elem (fst (bpf_map_update_elem m pid zero_stats BPF_ANY)) pid) \<and>
   (read_stats m pid = None \<and> snd (get_or_init_stats m pid) \<noteq> None \<longrightarrow>
      read_stats (fst (get_or_init_stats m pid)) pid = Some zero_stats) \<and>
   ((snd (get_or_init_stats m pid) = None) =
      (read_stats (fst (bpf_map_update_elem m pid zero_stats BPF_ANY)) pid = None))"
proof -
  have eq: "get_or_init_stats m pid = resolve_or_create m pid"
    by (simp add: get_or_init_stats_def resolve_or_create_def split: prod.splits option.splits)
  have found: "get_or_init_stats m pid = bpf_map_lookup_elem m pid" if "read_stats m pid \<noteq> None"
  proof -
    from that have "snd (bpf_map_lookup_elem m pid) = Some pid" by (simp add: lookup_result)
    then obtain m1 where "bpf_map_lookup_elem m pid = (m1, Some pid)"
      by (cases "bpf_map_lookup_elem m pid") simp
    then show ?thesis by (simp add: get_or_init_stats_def)
  qed
  have again: "get_or_init_stats m pid =
        bpf_map_lookup_elem (fst (bpf_map_update_elem m pid zero_stats BPF_ANY)) pid"
    if "read_stats m pid = None"
    using that
    by (simp add: get_or_init_stats_def lookup_absent split: prod.splits option.splits)
  have fresh: "read_stats (fst (get_or_init_stats m pid)) pid = Some zero_stats"
    if "read_stats m pid = None" "snd (get_or_init_stats m pid) \<noteq> None"
    using that by (cases m pid rule: goi_cases) (simp_all add: read_stats_def)
  have absent: "(snd (get_or_init_stats m pid) = None) =
      (read_stats (fst (bpf_map_update_elem m pid zero_stats BPF_ANY)) pid = None)"
  proof (cases "read_stats m pid = None")
    case True
    then show ?thesis by (simp add: again lookup_result)
  next
    case False
    then have "read_stats (fst (bpf_map_update_elem m pid zero_stats BPF_ANY)) pid \<noteq> None"
      by (simp add: update_present)
    moreover from False have "snd (get_or_init_stats m pid) = Some pid"
      using found[OF False] by (simp add: lookup_result)
    ultimately show ?thesis by simp
  qed
  from eq found again fresh absent show ?thesis by blast
qed

theorem get_or_init_stats_algorithm_witness:
  "read_stats stats_map 7 = None \<and>
   get_or_init_stats stats_map 7 = (stats_map\<lparr>entries := [(7, zero_stats)]\<rparr>, Some 7) \<and>
   read_stats (fst (get_or_init_stats stats_map 7)) 7 = Some zero_stats \<and>
   read_stats (full_table BPF_MAP_TYPE_HASH) 3 \<noteq> None \<and>
   get_or_init_stats (full_table BPF_MAP_TYPE_HASH) 3 = (full_table BPF_MAP_TYPE_HASH, Some 3)"
proof -
  have new: "read_stats stats_map 7 = None" by (simp add: read_stats_def stats_map_def)
  have upd: "bpf_map_update_elem stats_map 7 zero_stats BPF_ANY =
      (stats_map\<lparr>entries := [(7, zero_stats)]\<rparr>, 0)"
    by (simp add: bpf_map_update_elem_def stats_map_def)
  have look: "bpf_map_lookup_elem (stats_map\<lparr>entries := [(7, zero_stats)]\<rparr>) 7 =
      (stats_map\<lparr>entries := [(7, zero_stats)]\<rparr>, Some 7)"
    by (simp add: bpf_map_lookup_elem_def stats_map_def)
  have old: "read_stats (full_table BPF_MAP_TYPE_HASH) 3 = Some (zero_stats\<lparr>context_switches := 2\<rparr>)"
    by (rule full_read_Some) simp
  then have look3: "bpf_map_lookup_elem (full_table BPF_MAP_TYPE_HASH) 3 =
      (full_table BPF_MAP_TYPE_HASH, Some 3)"
    by (simp add: bpf_map_lookup_elem_def read_stats_def)
  note a = get_or_init_stats_algorithm[of stats_map 7, THEN conjunct2, THEN conjunct2]
  note b = get_or_init_stats_algorithm[of "full_table BPF_MAP_TYPE_HASH" 3, THEN conjunct2, THEN conjunct1]
  from a new upd look
  have 1: "get_or_init_stats stats_map 7 = (stats_map\<lparr>entries := [(7, zero_stats)]\<rparr>, Some 7)"
    by simp
  then have 2: "read_stats (fst (get_or_init_stats stats_map 7)) 7 = Some zero_stats"
    by (simp add: read_stats_def)
  from b old look3
  have 3: "get_or_init_stats (full_table BPF_MAP_TYPE_HASH) 3 = (full_table BPF_MAP_TYPE_HASH, Some 3)"
    by simp
  from new 1 2 old 3 show ?thesis by simp
qed



text \<open>
  C8 (as amended). On a well-formed table, for every event of either handler (a null
  payload included) and every id that has a record before and after the event and whose
  record was not evicted and created anew within the event: the event adds 0, 1 or 2 to
  \<open>context_switches\<close> and 0 or 1 to each fault counter, modulo \<open>2^64\<close>; so no counter
  decreases unless it wraps around: \<open>context_switches\<close> does not decrease when it is at
  most \<open>2^64 - 3\<close> before the event, and a fault counter does not when it is at most
  \<open>2^64 - 2\<close>.
\<close>

theorem counters_monotone_until_wrap:
  assumes wf: "wf_map m"
    and before: "read_stats m q = Some s"
    and after: "read_stats (fst (handle m ev)) q = Some s'"
    and same: "\<not> recreated_in m ev q"
  shows "(context_switches s' = context_switches s \<or>
          context_switches s' = context_switches s + 1 \<or>
          context_switches s' = context_switches s + 2) \<and>
         (major_faults s' = major_faults s \<or> major_faults s' = major_faults s + 1) \<and>
         (minor_faults s' = minor_faults s \<or> minor_faults s' = minor_faults s + 1) \<and>
         (context_switches s \<le> 0xFFFFFFFFFFFFFFFD \<longrightarrow> context_switches s \<le> context_switches s') \<and>
         (major_faults s \<le> 0xFFFFFFFFFFFFFFFE \<longrightarrow> major_faults s \<le> major_faults s') \<and>
         (minor_faults s \<le> 0xFFFFFFFFFFFFFFFE \<longrightarrow> minor_faults s \<le> minor_faults s')"
proof -
  let ?f = "\<lambda>s::stats_t. s\<lparr>context_switches := context_switches s + 1\<rparr>"
  have delta: "(context_switches s' = context_switches s \<or>
          context_switches s' = context_switches s + 1 \<or>
          context_switches s' = context_switches s + 2) \<and>
         (major_faults s' = major_faults s \<or> major_faults s' = major_faults s + 1) \<and>
         (minor_faults s' = minor_faults s \<or> minor_faults s' = minor_faults s + 1)"
  proof (cases ev)
    case (Sched_switch ctx)
    show ?thesis
    proof (cases ctx)
      case None
      with Sched_switch before after show ?thesis
        by (simp add: count_context_switches_def)
    next
      case (Some c)
      let ?m1 = "with_stats m (prev_pid c) ?f"
      from Sched_switch Some after
      have a: "read_stats (with_stats ?m1 (next_pid c) ?f) q = Some s'"
        by (simp add: ccs_halves)
      have wf1: "wf_map ?m1" by (rule ws_wf[OF wf])
      have "read_stats ?m1 q \<noteq> None"
      proof
        assume n: "read_stats ?m1 q = None"
        with before have ev: "evicts m (prev_pid c) \<and> q = lru_key m" and "q \<noteq> prev_pid c"
          by (auto simp: ws_read[OF wf] resolvable_def split: if_splits)
        with same Sched_switch Some have "q \<noteq> next_pid c"
          by (auto simp: recreated_in_def)
        with a n show False by (auto simp: ws_read[OF wf1] split: if_splits)
      qed
      then obtain s1 where s1: "read_stats ?m1 q = Some s1" by blast
      from ws_keep[OF wf before s1] have "s1 = (if q = prev_pid c then ?f s else s)" .
      moreover from ws_keep[OF wf1 s1 a] have "s' = (if q = next_pid c then ?f s1 else s1)" .
      ultimately show ?thesis by (auto simp: add.assoc)
    qed
  next
    case (Page_fault_user ctx pid_tgid)
    show ?thesis
    proof (cases ctx)
      case None
      with Page_fault_user before after show ?thesis
        by (simp add: count_page_faults_def)
    next
      case (Some c)
      let ?g = "if error_code c AND 1 \<noteq> 0
                then (\<lambda>s::stats_t. s\<lparr>minor_faults := minor_faults s + 1\<rparr>)
                else (\<lambda>s. s\<lparr>major_faults := major_faults s + 1\<rparr>)"
      let ?pid = "ucast (drop_bit 32 pid_tgid) :: u32"
      from Page_fault_user Some after
      have "read_stats (with_stats m ?pid ?g) q = Some s'"
        by (simp add: cpf_with)
      from ws_keep[OF wf before this] have "s' = (if q = ?pid then ?g s else s)" .
      then show ?thesis by (simp split: if_splits)
    qed
  qed
  from delta show ?thesis
    by (auto intro: u64_le_add1 u64_le_add1_below u64_le_add2)
qed

theorem counters_monotone_until_wrap_witness:
  "wf_map (stats_map_v2\<lparr>entries := [(7, zero_stats)]\<rparr>) \<and>
   read_stats (stats_map_v2\<lparr>entries := [(7, zero_stats)]\<rparr>) 7 = Some zero_stats \<and>
   read_stats (fst (handle (stats_map_v2\<lparr>entries := [(7, zero_stats)]\<rparr>)
     (Sched_switch (Some (self_switch 7))))) 7 = Some (zero_stats\<lparr>context_switches := 2\<rparr>) \<and>
   \<not> recreated_in (stats_map_v2\<lparr>entries := [(7, zero_stats)]\<rparr>)
     (Sched_switch (Some (self_switch 7))) 7 \<and>
   context_switches zero_stats \<le> context_switches (zero_stats\<lparr>context_switches := 2\<rparr>) \<and>
   major_faults zero_stats \<le> major_faults (zero_stats\<lparr>context_switches := 2\<rparr>) \<and>
   minor_faults zero_stats \<le> minor_faults (zero_stats\<lparr>context_switches := 2\<rparr>)"
proof -
  let ?m = "stats_map_v2\<lparr>entries := [(7, zero_stats)]\<rparr>"
  have wf: "wf_map ?m" by (simp add: wf_map_def keys_def stats_map_v2_def)
  have before: "read_stats ?m 7 = Some zero_stats" by (simp add: read_stats_def)
  have e: "entries ?m = [(7, zero_stats)]" by simp
  have after: "read_stats (fst (handle ?m (Sched_switch (Some (self_switch 7))))) 7 =
      Some (zero_stats\<lparr>context_switches := 2\<rparr>)"
    using self_switch_front[OF e] by (simp add: read_stats_def zero_stats_def)
  have same: "\<not> recreated_in ?m (Sched_switch (Some (self_switch 7))) 7"
    by (simp add: recreated_in_def evicts_def read_stats_def self_switch_def)
  from counters_monotone_until_wrap[OF wf before after same] wf before after same
  show ?thesis by (simp add: zero_stats_def)
qed

text \<open>
  C8 as stated fails at the wrap-around of the 64-bit counter: in \<open>stats.c\<close>, after
  \<open>2^63 - 1\<close> self-switches of pid 1 from the empty table its record counts
  \<open>2^64 - 2\<close> context switches; one more self-switch and the same record, never evicted,
  counts 0.
\<close>

theorem counter_wraps_to_zero:
  "read_stats (run_stats stats_map (replicate 9223372036854775807 (Some (self_switch 1)))) 1 =
     Some \<lparr>context_switches = 0xFFFFFFFFFFFFFFFE, major_faults = 0, minor_faults = 0\<rparr> \<and>
   read_stats (run_stats stats_map
       (replicate 9223372036854775807 (Some (self_switch 1)) @ [Some (self_switch 1)])) 1 =
     Some \<lparr>context_switches = 0, major_faults = 0, minor_faults = 0\<rparr> \<and>
   \<not> (0xFFFFFFFFFFFFFFFE \<le> (0::u64))"
proof -
  let ?before = "run_stats stats_map (replicate 9223372036854775807 (Some (self_switch 1)))"
  have b: "?before = stats_map\<lparr>entries :=
      [(1, \<lparr>context_switches = 0xFFFFFFFFFFFFFFFE, major_faults = 0, minor_faults = 0\<rparr>)]\<rparr>"
    using run_self_from_empty[of 9223372036854775807 1] by (simp add: zero_stats_def)
  then have e: "entries ?before =
      [(1, \<lparr>context_switches = 0xFFFFFFFFFFFFFFFE, major_faults = 0, minor_faults = 0\<rparr>)]"
    by simp
  have "fst (count_context_switches ?before (Some (self_switch 1))) =
      ?before\<lparr>entries := [(1, \<lparr>context_switches = 0, major_faults = 0, minor_faults = 0\<rparr>)]\<rparr>"
    using self_switch_front[OF e] by simp
  then have "read_stats (run_stats stats_map
       (replicate 9223372036854775807 (Some (self_switch 1)) @ [Some (self_switch 1)])) 1 =
     Some \<lparr>context_switches = 0, major_faults = 0, minor_faults = 0\<rparr>"
    by (simp add: run_stats_append read_stats_def)
  moreover from e have "read_stats ?before 1 =
     Some \<lparr>context_switches = 0xFFFFFFFFFFFFFFFE, major_faults = 0, minor_faults = 0\<rparr>"
    by (simp add: read_stats_def)
  ultimately show ?thesis by simp
qed

text \<open>
  C9. Both programs declare \<open>max_entries = 1024\<close>; resolve-or-create and the two handlers
  leave \<open>max_entries\<close> of any table as it is; and after every run of either program from
  its empty table the capacity is still 1024, the table holds at most 1024 entries, and
  their keys are distinct.
\<close>

theorem capacity_fixed_at_1024:
  "max_entries stats_map = 1024 \<and> max_entries stats_map_v2 = 1024 \<and>
   max_entries (fst (get_or_init_stats m pid)) = max_entries m \<and>
   max_entries (fst (count_context_switches m ctx)) = max_entries m \<and>
   max_entries (fst (count_page_faults m fctx pid_tgid)) = max_entries m \<and>
   max_entries (run_stats stats_map evs) = 1024 \<and>
   length (entries (run_stats stats_map evs)) \<le> 1024 \<and>
   distinct (keys (run_stats stats_map evs)) \<and>
   max_entries (run_stats_v2 stats_map_v2 tps) = 1024 \<and>
   length (entries (run_stats_v2 stats_map_v2 tps)) \<le> 1024 \<and>
   distinct (keys (run_stats_v2 stats_map_v2 tps))"
proof -
  have decl: "max_entries stats_map = 1024" "max_entries stats_map_v2 = 1024"
    by (simp_all add: stats_map_def stats_map_v2_def)
  have ops: "max_entries (fst (get_or_init_stats m pid)) = max_entries m"
    "max_entries (fst (count_context_switches m ctx)) = max_entries m"
    "max_entries (fst (count_page_faults m fctx pid_tgid)) = max_entries m"
    using handle_fields(1)[of m "Sched_switch ctx"] handle_fields(1)[of m "Page_fault_user fctx pid_tgid"]
    by (simp_all add: goi_fields)
  from run_stats_inv[OF wf_stats_map(1), of evs] decl
  have v1: "max_entries (run_stats stats_map evs) = 1024"
    "length (entries (run_stats stats_map evs)) \<le> 1024"
    "distinct (keys (run_stats stats_map evs))"
    by (simp_all add: wf_map_def)
  from run_stats_v2_inv[OF wf_stats_map(2), of tps] decl
  have v2: "max_entries (run_stats_v2 stats_map_v2 tps) = 1024"
    "length (entries (run_stats_v2 stats_map_v2 tps)) \<le> 1024"
    "distinct (keys (run_stats_v2 stats_map_v2 tps))"
    by (simp_all add: wf_map_def)
  from decl ops v1 v2 show ?thesis by simp
qed

theorem capacity_fixed_at_1024_witness:
  "max_entries (fst (count_context_switches stats_map (Some (self_switch 1)))) = 1024 \<and>
   max_entries (run_stats stats_map warm_up) = 1024 \<and>
   length (entries (run_stats stats_map (warm_up @ [Some (self_switch 5000)]))) \<le> 1024"
  using capacity_fixed_at_1024[of stats_map 1 "Some (self_switch 1)" None 0 warm_up "[]"]
    capacity_fixed_at_1024[of stats_map 1 None None 0 "warm_up @ [Some (self_switch 5000)]" "[]"]
  by simp

text \<open>
  C10. \<open>stats.c\<close> attaches the context-switch handler only, so after every run of it from
  the empty table every record of the table has \<open>major_faults = 0\<close> and
  \<open>minor_faults = 0\<close>.
\<close>

theorem stats_c_counts_no_faults:
  "\<forall>e \<in> set (entries (run_stats stats_map evs)).
     major_faults (snd e) = 0 \<and> minor_faults (snd e) = 0"
proof -
  have "no_faults stats_map" by (simp add: no_faults_def stats_map_def)
  with wf_stats_map(1) have "no_faults (run_stats stats_map evs)" by (rule run_stats_no_faults)
  then show ?thesis by (simp add: no_faults_def)
qed

theorem stats_c_counts_no_faults_witness:
  "entries (run_stats stats_map [Some \<lparr>prev_pid = 1, next_pid = 2\<rparr>, Some (self_switch 1)]) \<noteq> [] \<and>
   read_stats (run_stats stats_map [Some \<lparr>prev_pid = 1, next_pid = 2\<rparr>, Some (self_switch 1)]) 1 =
     Some \<lparr>context_switches = 3, major_faults = 0, minor_faults = 0\<rparr>"
proof -
  let ?m = "run_stats stats_map [Some \<lparr>prev_pid = 1, next_pid = 2\<rparr>, Some (self_switch 1)]"
  let ?f = "\<lambda>s::stats_t. s\<lparr>context_switches := context_switches s + 1\<rparr>"
  have e: "entries ?m =
     [(2, zero_stats\<lparr>context_switches := 1\<rparr>), (1, zero_stats\<lparr>context_switches := 3\<rparr>)]"
    by (simp add: count_context_switches_def get_or_init_stats_def bpf_map_lookup_elem_def
          bpf_map_update_elem_def store_def stats_map_def self_switch_def zero_stats_def)
  then have "(1, zero_stats\<lparr>context_switches := 3\<rparr>) \<in> set (entries ?m)" by simp
  with stats_c_counts_no_faults[of "[Some \<lparr>prev_pid = 1, next_pid = 2\<rparr>, Some (self_switch 1)]"]
  have "major_faults (zero_stats\<lparr>context_switches := 3\<rparr>) = 0 \<and>
        minor_faults (zero_stats\<lparr>context_switches := 3\<rparr>) = 0"
    by fastforce
  with e show ?thesis by (simp add: read_stats_def zero_stats_def)
qed

end
